theory Spec2Isabelle
  imports Main "HOL-Library.Word" "HOL-Library.Multiset" "HOL-Library.Countable"
begin

section \<open>The hash tree of package htree\<close>

text \<open>
  A shallow embedding of \<^verbatim>\<open>htree.go\<close>. The Go program keeps every node behind a
  pointer that is stored in exactly one children slice (a node is allocated only by
  \<^verbatim>\<open>newNode\<close> and \<^verbatim>\<open>New\<close>), so the node graph is a tree and a node is modelled as
  a value that owns the list of its children. An in-place update of a node reached
  through its father is modelled by rebuilding the father with the updated child in the
  same slot. Every run-time panic of Go (index out of range, nil dereference) is a value
  of type \<open>error\<close>. The item handed to \<^verbatim>\<open>Get\<close>, \<^verbatim>\<open>Put\<close> or \<^verbatim>\<open>Delete\<close> is an
  item: a nil argument, on which the first \<^verbatim>\<open>item.Key()\<close> panics, is left out.
\<close>

subsection \<open>Data model\<close>

datatype error = IndexOutOfRange | NilDereference

text \<open>
  \<^verbatim>\<open>Item\<close> is an interface with the single method \<^verbatim>\<open>Key() uint32\<close>; an item is a key
  together with whatever else the implementing type carries.
\<close>

datatype 'v item = Item (Key: "32 word") (payload: 'v)

text \<open>\<^verbatim>\<open>type Uint32 uint32\<close>: the item that is nothing but its key.\<close>

definition Uint32 :: "32 word \<Rightarrow> unit item" where
  "Uint32 k = Item k ()"

text \<open>
  \<^verbatim>\<open>type node struct { item Item; depth int8; remainder int8; children children }\<close>.
  The interface value \<^verbatim>\<open>item\<close> may be nil (it is for the root).
\<close>

datatype 'v node =
  Node (item: "'v item option") (depth: "8 word") (remainder: "8 word")
       (children: "'v node list")

text \<open>
  \<^verbatim>\<open>type HTree struct { root *node; length int; conflicts int }\<close>; Go's \<^verbatim>\<open>int\<close> is
  taken at 64 bits, so the two counters wrap around as 64-bit words do.
\<close>

record 'v htree =
  root :: "'v node"
  tree_length :: "64 word"
  conflicts :: "64 word"

text \<open>
  \<^verbatim>\<open>type Iterator struct { t; fathers []*node; indexes []int; n *node; i int }\<close>
  (the fields \<^verbatim>\<open>t\<close>, \<^verbatim>\<open>n\<close> and \<^verbatim>\<open>i\<close> carry the suffix \<open>_it\<close>).
  Slice indices are Go ints; they are modelled as unbounded integers, a slice being far
  shorter than \<open>2 ^ 63\<close>.
\<close>

record 'v iterator =
  t_it :: "'v htree"
  fathers :: "'v node list"
  indexes :: "int list"
  n_it :: "'v node"
  i_it :: int

subsection \<open>Primes and residues\<close>

definition primes :: "int list" where
  "primes = [2, 3, 5, 7, 11, 13, 17, 19, 23, 29]"

text \<open>Reading a slice or an array at a Go int: out of range is a panic.\<close>

definition index :: "'a list \<Rightarrow> int \<Rightarrow> error + 'a" where
  "index xs j = (if 0 \<le> j \<and> j < int (length xs) then Inr (xs ! nat j) else Inl IndexOutOfRange)"

text \<open>
  \<^verbatim>\<open>func modulo(key uint32, depth int8) int8 { return int8(key % uint32(primes[depth])) }\<close>
\<close>

definition modulo_key :: "32 word \<Rightarrow> 8 word \<Rightarrow> error + 8 word" where
  "modulo_key key d =
     (case index primes (sint d) of
        Inl e \<Rightarrow> Inl e
      | Inr p \<Rightarrow> Inr (ucast (key mod (word_of_int p :: 32 word))))"

text \<open>\<^verbatim>\<open>newNode\<close>: a node with the given item, depth and remainder and no children.\<close>

definition newNode :: "'v item option \<Rightarrow> 8 word \<Rightarrow> 8 word \<Rightarrow> 'v node" where
  "newNode it d r = Node it d r []"

subsection \<open>The children slice\<close>

text \<open>
  \<^verbatim>\<open>insert\<close> appends a slot, moves the elements from index \<open>j\<close> on one slot to the
  right and writes the node at \<open>j\<close>; the slice expression and the write panic unless
  \<open>0 \<le> j \<le> len\<close>.
\<close>

definition children_insert :: "'v node list \<Rightarrow> int \<Rightarrow> 'v node \<Rightarrow> error + 'v node list" where
  "children_insert s j nd =
     (if 0 \<le> j \<and> j \<le> int (length s) then Inr (take (nat j) s @ nd # drop (nat j) s)
      else Inl IndexOutOfRange)"

text \<open>\<^verbatim>\<open>delete\<close>: \<^verbatim>\<open>append(s[:i], s[i+1:]...)\<close>, a panic unless \<open>0 \<le> j < len\<close>.\<close>

definition children_delete :: "'v node list \<Rightarrow> int \<Rightarrow> error + 'v node list" where
  "children_delete s j =
     (if 0 \<le> j \<and> j < int (length s) then Inr (take (nat j) s @ drop (nat j + 1) s)
      else Inl IndexOutOfRange)"

text \<open>The loop of \<^verbatim>\<open>search\<close>: \<^verbatim>\<open>for left < right { mid := (left + right) >> 1 ... }\<close>.\<close>

function search_loop :: "'v node list \<Rightarrow> 8 word \<Rightarrow> int \<Rightarrow> int \<Rightarrow> error + (int \<times> int)" where
  "search_loop s r left right =
     (if left < right then
        (let mid = (left + right) div 2 in
         case index s mid of
           Inl e \<Rightarrow> Inl e
         | Inr child \<Rightarrow>
             if sint (remainder child) < sint r then search_loop s r (mid + 1) right
             else search_loop s r left mid)
      else Inr (left, right))"
  by pat_completeness auto
termination
  by (relation "measure (\<lambda>(s, r, left, right). nat (right - left))") auto

text \<open>
  \<^verbatim>\<open>search\<close> returns \<^verbatim>\<open>(ok, left, right)\<close>; \<^verbatim>\<open>left\<close> starts at 0 and
  \<^verbatim>\<open>right\<close> at \<^verbatim>\<open>len(*s) - 1\<close>.
\<close>

definition search :: "'v node list \<Rightarrow> 8 word \<Rightarrow> error + (bool \<times> int \<times> int)" where
  "search s r =
     (case search_loop s r 0 (int (length s) - 1) of
        Inl e \<Rightarrow> Inl e
      | Inr (left, right) \<Rightarrow>
          if left = right then
            (case index s left of
               Inl e \<Rightarrow> Inl e
             | Inr child \<Rightarrow> Inr (r = remainder child, left, right))
          else Inr (False, left, right))"

subsection \<open>The tree\<close>

text \<open>\<^verbatim>\<open>New\<close>: the root is the zero node (nil item, depth 0, no children).\<close>

definition New :: "'v htree" where
  "New = \<lparr>root = Node None 0 0 [], tree_length = 0, conflicts = 0\<rparr>"

definition Len :: "'v htree \<Rightarrow> 64 word" where
  "Len tr = tree_length tr"

definition Conflicts :: "'v htree \<Rightarrow> 64 word" where
  "Conflicts tr = conflicts tr"

text \<open>
  \<^verbatim>\<open>child.item.Key()\<close>: calling the method on a nil interface value panics.
\<close>

definition item_Key :: "'v item option \<Rightarrow> error + 32 word" where
  "item_Key io = (case io of None \<Rightarrow> Inl NilDereference | Some it \<Rightarrow> Inr (Key it))"

text \<open>\<^verbatim>\<open>get\<close>: the found item, or nil (\<open>None\<close>).\<close>

function get :: "'v node \<Rightarrow> 'v item \<Rightarrow> error + 'v item option" where
  "get (Node i0 d rm cs) it =
     (case modulo_key (Key it) d of
        Inl e \<Rightarrow> Inl e
      | Inr r \<Rightarrow>
         (case search cs r of
            Inl e \<Rightarrow> Inl e
          | Inr (ok, left, right) \<Rightarrow>
              if ok then
                (case index cs left of
                   Inl e \<Rightarrow> Inl e
                 | Inr child \<Rightarrow>
                    (case item_Key (item child) of
                       Inl e \<Rightarrow> Inl e
                     | Inr k \<Rightarrow> if k = Key it then Inr (item child) else get child it))
              else Inr None))"
  by pat_completeness auto
termination
proof (relation "measure (\<lambda>(nd, it). size nd)")
  show "wf (measure (\<lambda>(nd :: 'v node, it :: 'v item). size nd))"
    by simp
next
  fix i0 :: "'v item option" and d rm :: "8 word" and cs :: "'v node list"
    and it :: "'v item" and left :: int and child :: "'v node"
  assume "index cs left = Inr child"
  then have "child \<in> set cs"
    by (auto simp: index_def split: if_splits)
  then have "size child < Suc (size_list size cs)"
    by (induction cs) auto
  then show "((child, it), (Node i0 d rm cs, it)) \<in> measure (\<lambda>(nd, it). size nd)"
    by simp
qed

text \<open>
  \<^verbatim>\<open>put\<close> reads and writes the counters \<^verbatim>\<open>t.length\<close> and \<^verbatim>\<open>t.conflicts\<close>; they are
  passed in and returned, after the returned item and the updated node.
\<close>

function put :: "'v node \<Rightarrow> 'v item \<Rightarrow> 64 word \<Rightarrow> 64 word
    \<Rightarrow> error + ('v item option \<times> 'v node \<times> 64 word \<times> 64 word)" where
  "put (Node i0 d rm cs) it len conf =
     (case modulo_key (Key it) d of
        Inl e \<Rightarrow> Inl e
      | Inr r \<Rightarrow>
         (case search cs r of
            Inl e \<Rightarrow> Inl e
          | Inr (ok, left, right) \<Rightarrow>
              if ok then
                (case index cs left of
                   Inl e \<Rightarrow> Inl e
                 | Inr child \<Rightarrow>
                    (case item_Key (item child) of
                       Inl e \<Rightarrow> Inl e
                     | Inr k \<Rightarrow>
                        if k = Key it then Inr (item child, Node i0 d rm cs, len, conf + 1)
                        else
                          (case put child it len conf of
                             Inl e \<Rightarrow> Inl e
                           | Inr (res, child', len', conf') \<Rightarrow>
                               Inr (res, Node i0 d rm (cs[nat left := child']), len', conf'))))
              else if int (length primes) - 1 \<le> sint d then Inr (None, Node i0 d rm cs, len, conf)
              else
                (let child = newNode (Some it) (d + 1) r in
                 case (if length cs = 0 then Inr True
                       else if right = int (length cs) - 1 then
                         (case index cs right of
                            Inl e \<Rightarrow> Inl e
                          | Inr c \<Rightarrow> Inr (sint (remainder c) \<le> sint r))
                       else Inr False) of
                   Inl e \<Rightarrow> Inl e
                 | Inr at_end \<Rightarrow>
                    (case (if at_end then Inr (cs @ [child]) else children_insert cs right child) of
                       Inl e \<Rightarrow> Inl e
                     | Inr cs' \<Rightarrow> Inr (item child, Node i0 d rm cs', len + 1, conf)))))"
  by pat_completeness auto
termination
proof (relation "measure (\<lambda>(nd, it, len, conf). size nd)")
  show "wf (measure (\<lambda>(nd :: 'v node, it :: 'v item, len :: 64 word, conf :: 64 word). size nd))"
    by simp
next
  fix i0 :: "'v item option" and d rm :: "8 word" and cs :: "'v node list"
    and it :: "'v item" and len conf :: "64 word" and left :: int and child :: "'v node"
  assume "index cs left = Inr child"
  then have "child \<in> set cs"
    by (auto simp: index_def split: if_splits)
  then have "size child < Suc (size_list size cs)"
    by (induction cs) auto
  then show "((child, it, len, conf), (Node i0 d rm cs, it, len, conf))
      \<in> measure (\<lambda>(nd, it, len, conf). size nd)"
    by simp
qed

text \<open>
  The loop of \<^verbatim>\<open>delete\<close> that walks from \<^verbatim>\<open>father\<close> down the first children to the
  first node without children and then runs \<^verbatim>\<open>father.children.delete(0)\<close> on the last
  father. It returns the leaf's item and the starting node as the walk leaves it.
\<close>

function detach_leaf :: "'v node \<Rightarrow> error + ('v item option \<times> 'v node)" where
  "detach_leaf (Node i0 d rm cs) =
     (case index cs 0 of
        Inl e \<Rightarrow> Inl e
      | Inr leaf \<Rightarrow>
          if length (children leaf) = 0 then
            (case children_delete cs 0 of
               Inl e \<Rightarrow> Inl e
             | Inr cs' \<Rightarrow> Inr (item leaf, Node i0 d rm cs'))
          else
            (case detach_leaf leaf of
               Inl e \<Rightarrow> Inl e
             | Inr (li, leaf') \<Rightarrow> Inr (li, Node i0 d rm (cs[0 := leaf']))))"
  by pat_completeness auto
termination
proof (relation "measure size")
  show "wf (measure (size :: 'v node \<Rightarrow> nat))"
    by simp
next
  fix i0 :: "'v item option" and d rm :: "8 word" and cs :: "'v node list"
    and leaf :: "'v node"
  assume "index cs 0 = Inr leaf"
  then have "leaf \<in> set cs"
    by (auto simp: index_def split: if_splits)
  then have "size leaf < Suc (size_list size cs)"
    by (induction cs) auto
  then show "(leaf, Node i0 d rm cs) \<in> measure size"
    by simp
qed

text \<open>
  \<^verbatim>\<open>delete\<close> reads and writes \<^verbatim>\<open>t.length\<close>. With a leaf promoted, the slot
  \<^verbatim>\<open>n.children[left]\<close> receives \<^verbatim>\<open>newNode(leaf.item, child.depth, child.remainder)\<close>
  whose children are \<^verbatim>\<open>child.children\<close> as they are after the leaf was removed.
\<close>

function delete :: "'v node \<Rightarrow> 'v item \<Rightarrow> 64 word
    \<Rightarrow> error + ('v item option \<times> 'v node \<times> 64 word)" where
  "delete (Node i0 d rm cs) it len =
     (case modulo_key (Key it) d of
        Inl e \<Rightarrow> Inl e
      | Inr r \<Rightarrow>
         (case search cs r of
            Inl e \<Rightarrow> Inl e
          | Inr (ok, left, right) \<Rightarrow>
              if ok then
                (case index cs left of
                   Inl e \<Rightarrow> Inl e
                 | Inr child \<Rightarrow>
                    (case item_Key (item child) of
                       Inl e \<Rightarrow> Inl e
                     | Inr k \<Rightarrow>
                        if k = Key it then
                          (if length (children child) = 0 then
                             (case children_delete cs left of
                                Inl e \<Rightarrow> Inl e
                              | Inr cs' \<Rightarrow> Inr (item child, Node i0 d rm cs', len - 1))
                           else
                             (case detach_leaf child of
                                Inl e \<Rightarrow> Inl e
                              | Inr (li, child') \<Rightarrow>
                                  Inr (item child,
                                       Node i0 d rm
                                         (cs[nat left :=
                                               Node li (depth child) (remainder child)
                                                 (children child')]),
                                       len - 1)))
                        else
                          (case delete child it len of
                             Inl e \<Rightarrow> Inl e
                           | Inr (res, child', len') \<Rightarrow>
                               Inr (res, Node i0 d rm (cs[nat left := child']), len'))))
              else Inr (None, Node i0 d rm cs, len)))"
  by pat_completeness auto
termination
proof (relation "measure (\<lambda>(nd, it, len). size nd)")
  show "wf (measure (\<lambda>(nd :: 'v node, it :: 'v item, len :: 64 word). size nd))"
    by simp
next
  fix i0 :: "'v item option" and d rm :: "8 word" and cs :: "'v node list"
    and it :: "'v item" and len :: "64 word" and left :: int and child :: "'v node"
  assume "index cs left = Inr child"
  then have "child \<in> set cs"
    by (auto simp: index_def split: if_splits)
  then have "size child < Suc (size_list size cs)"
    by (induction cs) auto
  then show "((child, it, len), (Node i0 d rm cs, it, len)) \<in> measure (\<lambda>(nd, it, len). size nd)"
    by simp
qed

subsection \<open>The exported operations\<close>

text \<open>
  Each operation takes the tree and returns its result with the tree as the call leaves
  it. \<^verbatim>\<open>get\<close>, \<^verbatim>\<open>search\<close> and \<^verbatim>\<open>modulo\<close> assign to no field of the tree or of a
  node, so \<open>Get\<close> hands back the tree it was given; that they leave the memory as it
  is, is shown on \<open>Get_m\<close> below, which threads the memory through every call.
\<close>

definition Get :: "'v htree \<Rightarrow> 'v item \<Rightarrow> error + ('v item option \<times> 'v htree)" where
  "Get tr it = (case get (root tr) it of Inl e \<Rightarrow> Inl e | Inr res \<Rightarrow> Inr (res, tr))"

definition Put :: "'v htree \<Rightarrow> 'v item \<Rightarrow> error + ('v item option \<times> 'v htree)" where
  "Put tr it =
     (case put (root tr) it (tree_length tr) (conflicts tr) of
        Inl e \<Rightarrow> Inl e
      | Inr (res, nd, len, conf) \<Rightarrow>
          Inr (res, tr\<lparr>root := nd, tree_length := len, conflicts := conf\<rparr>))"

definition Delete :: "'v htree \<Rightarrow> 'v item \<Rightarrow> error + ('v item option \<times> 'v htree)" where
  "Delete tr it =
     (case delete (root tr) it (tree_length tr) of
        Inl e \<Rightarrow> Inl e
      | Inr (res, nd, len) \<Rightarrow> Inr (res, tr\<lparr>root := nd, tree_length := len\<rparr>))"

subsection \<open>The iterator\<close>

definition NewIterator :: "'v htree \<Rightarrow> 'v iterator" where
  "NewIterator tr = \<lparr>t_it = tr, fathers = [], indexes = [], n_it = root tr, i_it = 0\<rparr>"

text \<open>The loop \<^verbatim>\<open>for len(iter.fathers) > 0 { ... }\<close> of \<^verbatim>\<open>Next\<close>.\<close>

function Next_loop :: "'v iterator \<Rightarrow> error + (bool \<times> 'v iterator)" where
  "Next_loop iter =
     (if 0 < length (fathers iter) then
        (let l = int (length (fathers iter)) in
         case index (fathers iter) (l - 1) of
           Inl e \<Rightarrow> Inl e
         | Inr father \<Rightarrow>
             if i_it iter < int (length (children father)) - 1 then
               (case index (children father) (i_it iter + 1) of
                  Inl e \<Rightarrow> Inl e
                | Inr nd \<Rightarrow> Inr (True, iter\<lparr>n_it := nd, i_it := i_it iter + 1\<rparr>))
             else
               (case index (indexes iter) (l - 1) of
                  Inl e \<Rightarrow> Inl e
                | Inr j \<Rightarrow>
                    Next_loop (iter\<lparr>fathers := take (nat (l - 1)) (fathers iter),
                                    indexes := take (nat (l - 1)) (indexes iter),
                                    i_it := j\<rparr>)))
      else Inr (False, iter))"
  by pat_completeness auto
termination
proof (relation "measure (\<lambda>iter. length (fathers iter))")
  show "wf (measure (\<lambda>iter :: 'v iterator. length (fathers iter)))"
    by simp
next
  fix iter :: "'v iterator" and l :: int and j :: int
  assume "0 < length (fathers iter)" and "l = int (length (fathers iter))"
  then have "nat (l - 1) < length (fathers iter)"
    by linarith
  then show "(iter\<lparr>fathers := take (nat (l - 1)) (fathers iter),
                  indexes := take (nat (l - 1)) (indexes iter), i_it := j\<rparr>, iter)
      \<in> measure (\<lambda>iter. length (fathers iter))"
    by simp
qed

definition "Next" :: "'v iterator \<Rightarrow> error + (bool \<times> 'v iterator)" where
  "Next iter =
     (if 0 < length (children (n_it iter)) then
        (case index (children (n_it iter)) 0 of
           Inl e \<Rightarrow> Inl e
         | Inr c \<Rightarrow>
             Inr (True, iter\<lparr>fathers := fathers iter @ [n_it iter],
                              indexes := indexes iter @ [i_it iter],
                              n_it := c, i_it := 0\<rparr>))
      else Next_loop iter)"

text \<open>\<^verbatim>\<open>Item\<close> of the iterator: \<^verbatim>\<open>iter.n.item\<close>.\<close>

definition iter_Item :: "'v iterator \<Rightarrow> 'v item option" where
  "iter_Item iter = item (n_it iter)"

text \<open>
  The client loop \<^verbatim>\<open>for iter.Next() { ... iter.Item() ... }\<close>, collecting the items it
  sees. The loop is run on fuel: \<open>Inr None\<close> is a loop still running when the fuel is
  spent, \<open>Inr (Some xs)\<close> a loop that ended after yielding \<open>xs\<close>.
\<close>

fun iterate :: "nat \<Rightarrow> 'v iterator \<Rightarrow> error + 'v item option list option" where
  "iterate 0 iter = Inr None"
| "iterate (Suc fuel) iter =
     (case Next iter of
        Inl e \<Rightarrow> Inl e
      | Inr (ok, iter') \<Rightarrow>
          if ok then
            (case iterate fuel iter' of
               Inl e \<Rightarrow> Inl e
             | Inr None \<Rightarrow> Inr None
             | Inr (Some xs) \<Rightarrow> Inr (Some (iter_Item iter' # xs)))
          else Inr (Some []))"

text \<open>A run of \<^verbatim>\<open>Put\<close> calls, each on the tree the one before left, with their results.\<close>

fun Put_all :: "'v htree \<Rightarrow> 'v item list \<Rightarrow> error + ('v item option list \<times> 'v htree)" where
  "Put_all tr [] = Inr ([], tr)"
| "Put_all tr (it # its) =
     (case Put tr it of
        Inl e \<Rightarrow> Inl e
      | Inr (res, tr') \<Rightarrow>
          (case Put_all tr' its of
             Inl e \<Rightarrow> Inl e
           | Inr (ress, tr'') \<Rightarrow> Inr (res # ress, tr'')))"

subsection \<open>The tree in memory\<close>

text \<open>
  The operations above pass trees as values. Here the nodes lie in a memory, as in the
  Go program: a pointer is an address, a node is the cell at its address, its children
  slice is a list of addresses, and an address without a cell is nil (or dangling). The
  memory also holds the fields of the one \<^verbatim>\<open>HTree\<close>. A function that receives a
  pointer takes the memory and returns the memory as it leaves it; an assignment through
  a pointer would be an update of \<open>cells\<close>, \<open>mem_length\<close> or \<open>mem_conflicts\<close>.
\<close>

record 'v cell =
  cell_item :: "'v item option"
  cell_depth :: "8 word"
  cell_remainder :: "8 word"
  cell_children :: "nat list"

record 'v memory =
  cells :: "nat \<Rightarrow> 'v cell option"
  mem_root :: nat
  mem_length :: "64 word"
  mem_conflicts :: "64 word"

text \<open>Dereferencing a pointer.\<close>

definition load :: "'v memory \<Rightarrow> nat \<Rightarrow> error + 'v cell" where
  "load m a = (case cells m a of None \<Rightarrow> Inl NilDereference | Some c \<Rightarrow> Inr c)"

text \<open>
  \<^verbatim>\<open>search\<close> has the receiver \<^verbatim>\<open>s *children\<close>, the address of the children field of a
  node (here the address \<open>s\<close> of the node); \<^verbatim>\<open>(*s)[mid]\<close> and \<^verbatim>\<open>child.remainder\<close>
  read the memory.
\<close>

function search_loop_m :: "'v memory \<Rightarrow> nat \<Rightarrow> 8 word \<Rightarrow> int \<Rightarrow> int
    \<Rightarrow> error + ((int \<times> int) \<times> 'v memory)" where
  "search_loop_m m s r left right =
     (if left < right then
        (let mid = (left + right) div 2 in
         case load m s of
           Inl e \<Rightarrow> Inl e
         | Inr father \<Rightarrow>
            (case index (cell_children father) mid of
               Inl e \<Rightarrow> Inl e
             | Inr p \<Rightarrow>
                (case load m p of
                   Inl e \<Rightarrow> Inl e
                 | Inr child \<Rightarrow>
                     if sint (cell_remainder child) < sint r
                     then search_loop_m m s r (mid + 1) right
                     else search_loop_m m s r left mid)))
      else Inr ((left, right), m))"
  by pat_completeness auto
termination
  by (relation "measure (\<lambda>(m, s, r, left, right). nat (right - left))") auto

definition search_m :: "'v memory \<Rightarrow> nat \<Rightarrow> 8 word
    \<Rightarrow> error + ((bool \<times> int \<times> int) \<times> 'v memory)" where
  "search_m m s r =
     (case load m s of
        Inl e \<Rightarrow> Inl e
      | Inr father \<Rightarrow>
         (case search_loop_m m s r 0 (int (length (cell_children father)) - 1) of
            Inl e \<Rightarrow> Inl e
          | Inr ((left, right), m1) \<Rightarrow>
              if left = right then
                (case load m1 s of
                   Inl e \<Rightarrow> Inl e
                 | Inr father1 \<Rightarrow>
                    (case index (cell_children father1) left of
                       Inl e \<Rightarrow> Inl e
                     | Inr p \<Rightarrow>
                        (case load m1 p of
                           Inl e \<Rightarrow> Inl e
                         | Inr child \<Rightarrow> Inr ((r = cell_remainder child, left, right), m1))))
              else Inr ((False, left, right), m1)))"

text \<open>
  \<^verbatim>\<open>get\<close> on the memory, statement by statement. A memory may hold a cycle, on which
  the recursion would not end, so the recursion runs on fuel: \<open>Inr None\<close> is a call
  still running when the fuel is spent.
\<close>

fun get_m :: "nat \<Rightarrow> 'v memory \<Rightarrow> nat \<Rightarrow> 'v item
    \<Rightarrow> error + ('v item option \<times> 'v memory) option" where
  "get_m 0 m p it = Inr None"
| "get_m (Suc fuel) m p it =
     (case load m p of
        Inl e \<Rightarrow> Inl e
      | Inr nd \<Rightarrow>
         (case modulo_key (Key it) (cell_depth nd) of
            Inl e \<Rightarrow> Inl e
          | Inr r \<Rightarrow>
             (case search_m m p r of
                Inl e \<Rightarrow> Inl e
              | Inr ((ok, left, right), m1) \<Rightarrow>
                  if ok then
                    (case load m1 p of
                       Inl e \<Rightarrow> Inl e
                     | Inr nd1 \<Rightarrow>
                        (case index (cell_children nd1) left of
                           Inl e \<Rightarrow> Inl e
                         | Inr q \<Rightarrow>
                            (case load m1 q of
                               Inl e \<Rightarrow> Inl e
                             | Inr child \<Rightarrow>
                                (case item_Key (cell_item child) of
                                   Inl e \<Rightarrow> Inl e
                                 | Inr k \<Rightarrow>
                                     if k = Key it then Inr (Some (cell_item child, m1))
                                     else get_m fuel m1 q it))))
                  else Inr (Some (None, m1)))))"

text \<open>\<^verbatim>\<open>Get\<close>: \<^verbatim>\<open>t.get(t.root, item)\<close>.\<close>

definition Get_m :: "nat \<Rightarrow> 'v memory \<Rightarrow> 'v item
    \<Rightarrow> error + ('v item option \<times> 'v memory) option" where
  "Get_m fuel m it = get_m fuel m (mem_root m) it"

text \<open>
  The memory holds the tree \<open>nd\<close> at the address \<open>p\<close>: the cell at \<open>p\<close> has the
  fields of \<open>nd\<close>, and its children slice holds, in order, addresses at which the
  memory holds the children of \<open>nd\<close>.
\<close>

function repr :: "'v memory \<Rightarrow> nat \<Rightarrow> 'v node \<Rightarrow> bool" where
  "repr m p (Node i0 d rm cs) =
     (case cells m p of
        None \<Rightarrow> False
      | Some c \<Rightarrow>
          cell_item c = i0 \<and> cell_depth c = d \<and> cell_remainder c = rm \<and>
          length (cell_children c) = length cs \<and>
          list_all (\<lambda>(q, ch). repr m q ch) (zip (cell_children c) cs))"
  by pat_completeness auto
termination
proof (relation "measure (\<lambda>(m, p, nd). size nd)")
  show "wf (measure (\<lambda>(m :: 'v memory, p :: nat, nd :: 'v node). size nd))"
    by simp
next
  fix m :: "'v memory" and p :: nat and i0 :: "'v item option" and d rm :: "8 word"
    and cs :: "'v node list" and c :: "'v cell" and z :: "nat \<times> 'v node"
    and q :: nat and ch :: "'v node"
  assume "z \<in> set (zip (cell_children c) cs)" "(q, ch) = z"
  then have "ch \<in> set cs"
    by (auto dest: set_zip_rightD)
  then have "size ch < Suc (size_list size cs)"
    by (induction cs) auto
  then show "((m, q, ch), (m, p, Node i0 d rm cs)) \<in> measure (\<lambda>(m, p, nd). size nd)"
    by simp
qed

definition repr_tree :: "'v memory \<Rightarrow> 'v htree \<Rightarrow> bool" where
  "repr_tree m tr =
     (repr m (mem_root m) (root tr) \<and> mem_length m = tree_length tr \<and>
      mem_conflicts m = conflicts tr)"

text \<open>
  A memory that holds a given tree: the node reached from the root through the child
  indices \<open>path\<close> lies at the address that numbers \<open>path\<close>.
\<close>

fun subtree_at :: "'v node \<Rightarrow> nat list \<Rightarrow> 'v node option" where
  "subtree_at nd [] = Some nd"
| "subtree_at nd (j # path) =
     (if j < length (children nd) then subtree_at (children nd ! j) path else None)"

definition memory_of :: "'v htree \<Rightarrow> 'v memory" where
  "memory_of tr =
     \<lparr>cells = (\<lambda>a. case subtree_at (root tr) (from_nat a) of
                    None \<Rightarrow> None
                  | Some nd \<Rightarrow>
                      Some \<lparr>cell_item = item nd, cell_depth = depth nd,
                            cell_remainder = remainder nd,
                            cell_children =
                              map (\<lambda>j. to_nat (from_nat a @ [j])) [0..<length (children nd)]\<rparr>),
      mem_root = to_nat ([] :: nat list),
      mem_length = tree_length tr, mem_conflicts = conflicts tr\<rparr>"

text \<open>The number of nodes on the longest way down from a node.\<close>

fun height :: "'v node \<Rightarrow> nat" where
  "height (Node i0 d rm cs) = Suc (foldr (\<lambda>c h. max (height c) h) cs 0)"

subsection \<open>What a tree stores, and its invariants\<close>

text \<open>
  The items of a node and of everything under it, the node first and its children in the
  order of the children slice; \<open>below\<close> leaves the node itself out, and \<open>stored\<close>
  lists what a tree holds under its root.
\<close>

fun preorder :: "'v node \<Rightarrow> 'v item option list" where
  "preorder (Node i0 d rm cs) = i0 # concat (map preorder cs)"

definition below :: "'v node \<Rightarrow> 'v item option list" where
  "below nd = concat (map preorder (children nd))"

definition stored :: "'v htree \<Rightarrow> 'v item option list" where
  "stored tr = below (root tr)"

text \<open>
  One children slice: the remainders are pairwise distinct and ascending, compared as
  the signed bytes they are. \<open>ascending\<close> says the same with a strict order.
\<close>

definition siblings_sorted :: "'v node list \<Rightarrow> bool" where
  "siblings_sorted cs =
     (distinct (map remainder cs) \<and> sorted (map (\<lambda>c. sint (remainder c)) cs))"

definition ascending :: "'v node list \<Rightarrow> bool" where
  "ascending cs = sorted_wrt (\<lambda>a b. sint (remainder a) < sint (remainder b)) cs"

text \<open>The sibling invariant, at every node of a tree.\<close>

fun sibling_inv :: "'v node \<Rightarrow> bool" where
  "sibling_inv (Node i0 d rm cs) = (siblings_sorted cs \<and> (\<forall>c \<in> set cs. sibling_inv c))"

text \<open>
  Path consistency. \<open>residue_ok d r x\<close>: \<open>x\<close> is an item, and its key modulo the prime of
  depth \<open>d\<close> is \<open>r\<close>. A node is path consistent when every item stored in the subtree
  of a child \<open>c\<close> has, at the node's depth, the remainder of \<open>c\<close>, and so on below:
  the keys of a node reproduce the remainders on the path from the root to it.
\<close>

definition residue_ok :: "8 word \<Rightarrow> 8 word \<Rightarrow> 'v item option \<Rightarrow> bool" where
  "residue_ok d r x = (case x of None \<Rightarrow> False | Some it \<Rightarrow> modulo_key (Key it) d = Inr r)"

fun path_inv :: "'v node \<Rightarrow> bool" where
  "path_inv (Node i0 d rm cs) =
     (\<forall>c \<in> set cs. (\<forall>x \<in> set (preorder c). residue_ok d (remainder c) x) \<and> path_inv c)"

text \<open>Depths: within the primes, and a child one deeper than its father.\<close>

fun depth_inv :: "'v node \<Rightarrow> bool" where
  "depth_inv (Node i0 d rm cs) =
     (0 \<le> sint d \<and> sint d < int (length primes) \<and>
      (\<forall>c \<in> set cs. depth c = d + 1 \<and> depth_inv c))"

text \<open>
  A well-formed tree: the three invariants at the root, which has depth 0, no key
  stored twice, and \<^verbatim>\<open>length\<close> counting the stored items.
\<close>

definition tree_inv :: "'v htree \<Rightarrow> bool" where
  "tree_inv tr =
     (depth (root tr) = 0 \<and> sibling_inv (root tr) \<and> path_inv (root tr) \<and>
      depth_inv (root tr) \<and> distinct (map (map_option Key) (stored tr)) \<and>
      tree_length tr = of_nat (length (stored tr)))"

text \<open>The trees a program can build: from \<open>New\<close>, by \<open>Put\<close> and \<open>Delete\<close>.\<close>

inductive reachable :: "'v htree \<Rightarrow> bool" where
  reachable_New: "reachable New"
| reachable_Put: "reachable tr \<Longrightarrow> Put tr it = Inr (res, tr') \<Longrightarrow> reachable tr'"
| reachable_Delete: "reachable tr \<Longrightarrow> Delete tr it = Inr (res, tr') \<Longrightarrow> reachable tr'"

text \<open>
  The words of the description of \<^verbatim>\<open>delete\<close>: the leaf found by following the first
  child again and again, and a node with that leaf taken out of its father's children.
\<close>

fun first_leaf :: "'v node \<Rightarrow> 'v node" where
  "first_leaf (Node i0 d rm []) = Node i0 d rm []"
| "first_leaf (Node i0 d rm (c # cs)) = first_leaf c"

fun without_first_leaf :: "'v node \<Rightarrow> 'v node" where
  "without_first_leaf (Node i0 d rm []) = Node i0 d rm []"
| "without_first_leaf (Node i0 d rm (c # cs)) =
     (if children c = [] then Node i0 d rm cs
      else Node i0 d rm (without_first_leaf c # cs))"

text \<open>
  The nodes along the residue path of a key: at each node the child that \<^verbatim>\<open>search\<close>
  finds for the key's remainder, down to the node where it finds none.
\<close>

function residue_path :: "'v node \<Rightarrow> 32 word \<Rightarrow> error + 'v node list" where
  "residue_path (Node i0 d rm cs) k =
     (case modulo_key k d of
        Inl e \<Rightarrow> Inl e
      | Inr r \<Rightarrow>
         (case search cs r of
            Inl e \<Rightarrow> Inl e
          | Inr (ok, left, right) \<Rightarrow>
              if ok then
                (case index cs left of
                   Inl e \<Rightarrow> Inl e
                 | Inr child \<Rightarrow>
                    (case residue_path child k of
                       Inl e \<Rightarrow> Inl e
                     | Inr p \<Rightarrow> Inr (child # p)))
              else Inr []))"
  by pat_completeness auto
termination
proof (relation "measure (\<lambda>(nd, k). size nd)")
  show "wf (measure (\<lambda>(nd :: 'v node, k :: 32 word). size nd))"
    by simp
next
  fix i0 :: "'v item option" and d rm :: "8 word" and cs :: "'v node list"
    and k :: "32 word" and left :: int and child :: "'v node"
  assume "index cs left = Inr child"
  then have "child \<in> set cs"
    by (auto simp: index_def split: if_splits)
  then have "size child < Suc (size_list size cs)"
    by (induction cs) auto
  then show "((child, k), (Node i0 d rm cs, k)) \<in> measure (\<lambda>(nd, k). size nd)"
    by simp
qed

text \<open>A node on the path does not match a key: it has an item, with another key.\<close>

definition no_match :: "32 word \<Rightarrow> 'v node \<Rightarrow> bool" where
  "no_match k c = (case item c of None \<Rightarrow> False | Some x \<Rightarrow> Key x \<noteq> k)"

subsection \<open>What an iterator has still to yield\<close>

text \<open>
  \<open>pending\<close> takes the two stacks top first, and the index of the current node among
  the children of the top father: the subtrees of the later siblings, then the same for
  the father among its own siblings, and so on. \<open>todo\<close> puts what lies under the
  current node in front.
\<close>

fun pending :: "'v node list \<Rightarrow> int list \<Rightarrow> int \<Rightarrow> 'v item option list" where
  "pending (f # fs) (j # js) k =
     concat (map preorder (drop (nat (k + 1)) (children f))) @ pending fs js j"
| "pending fs js k = []"

definition todo :: "'v iterator \<Rightarrow> 'v item option list" where
  "todo iter =
     below (n_it iter) @ pending (rev (fathers iter)) (rev (indexes iter)) (i_it iter)"

definition iter_inv :: "'v iterator \<Rightarrow> bool" where
  "iter_inv iter =
     (length (fathers iter) = length (indexes iter) \<and> 0 \<le> i_it iter \<and>
      (\<forall>j \<in> set (indexes iter). 0 \<le> j))"

subsection \<open>Sample trees\<close>

text \<open>
  The tree of the keys 0 to 9, put in this order, as the test \<^verbatim>\<open>TestTreeInside\<close>
  draws it; the same tree after \<^verbatim>\<open>Delete(0)\<close> and after \<^verbatim>\<open>Put(10)\<close>; the tree of
  the keys 0 to 5; and a tree of one item with a payload.
\<close>

definition node_4 :: "unit node" where
  "node_4 = Node (Some (Item 4 ())) 2 1 []"

definition node_0 :: "unit node" where
  "node_0 =
     Node (Some (Item 0 ())) 1 0
      [Node (Some (Item 6 ())) 2 0 [],
       node_4,
       Node (Some (Item 2 ())) 2 2 [Node (Some (Item 8 ())) 3 3 []]]"

definition node_1 :: "unit node" where
  "node_1 =
     Node (Some (Item 1 ())) 1 1
      [Node (Some (Item 3 ())) 2 0 [Node (Some (Item 9 ())) 3 4 []],
       Node (Some (Item 7 ())) 2 1 [],
       Node (Some (Item 5 ())) 2 2 []]"

definition tree_0_9 :: "unit htree" where
  "tree_0_9 = \<lparr>root = Node None 0 0 [node_0, node_1], tree_length = 10, conflicts = 0\<rparr>"

definition tree_0_9_del_0 :: "unit htree" where
  "tree_0_9_del_0 =
     \<lparr>root =
        Node None 0 0
         [Node (Some (Item 6 ())) 1 0
           [node_4,
            Node (Some (Item 2 ())) 2 2 [Node (Some (Item 8 ())) 3 3 []]],
          node_1],
      tree_length = 9, conflicts = 0\<rparr>"

definition tree_0_9_put_10 :: "unit htree" where
  "tree_0_9_put_10 =
     \<lparr>root =
        Node None 0 0
         [Node (Some (Item 0 ())) 1 0
           [Node (Some (Item 6 ())) 2 0 [],
            Node (Some (Item 4 ())) 2 1 [Node (Some (Item 10 ())) 3 0 []],
            Node (Some (Item 2 ())) 2 2 [Node (Some (Item 8 ())) 3 3 []]],
          node_1],
      tree_length = 11, conflicts = 0\<rparr>"

definition tree_0_5 :: "unit htree" where
  "tree_0_5 =
     \<lparr>root =
        Node None 0 0
         [Node (Some (Item 0 ())) 1 0
           [Node (Some (Item 4 ())) 2 1 [],
            Node (Some (Item 2 ())) 2 2 []],
          Node (Some (Item 1 ())) 1 1
           [Node (Some (Item 3 ())) 2 0 [],
            Node (Some (Item 5 ())) 2 2 []]],
      tree_length = 6, conflicts = 0\<rparr>"

definition tree_123 :: "string htree" where
  "tree_123 =
     \<lparr>root = Node None 0 0 [Node (Some (Item 123 ''data1'')) 1 1 []],
      tree_length = 1, conflicts = 0\<rparr>"

text \<open>The tree of the keys 0 to 5 in a memory, the root at address 1.\<close>

definition mem_0_5 :: "unit memory" where
  "mem_0_5 =
     \<lparr>cells = map_of
        [(1, \<lparr>cell_item = None, cell_depth = 0, cell_remainder = 0, cell_children = [2, 3]\<rparr>),
         (2, \<lparr>cell_item = Some (Item 0 ()), cell_depth = 1, cell_remainder = 0,
               cell_children = [4, 5]\<rparr>),
         (3, \<lparr>cell_item = Some (Item 1 ()), cell_depth = 1, cell_remainder = 1,
               cell_children = [6, 7]\<rparr>),
         (4, \<lparr>cell_item = Some (Item 4 ()), cell_depth = 2, cell_remainder = 1,
               cell_children = []\<rparr>),
         (5, \<lparr>cell_item = Some (Item 2 ()), cell_depth = 2, cell_remainder = 2,
               cell_children = []\<rparr>),
         (6, \<lparr>cell_item = Some (Item 3 ()), cell_depth = 2, cell_remainder = 0,
               cell_children = []\<rparr>),
         (7, \<lparr>cell_item = Some (Item 5 ()), cell_depth = 2, cell_remainder = 2,
               cell_children = []\<rparr>)],
      mem_root = 1, mem_length = 6, mem_conflicts = 0\<rparr>"

subsection \<open>A chain of nine nodes\<close>

text \<open>
  Nine keys that agree modulo 2, 3, 5, 7, 11, 13, 17, 19 and 23 as far as the tree
  compares them: each is the product of the first primes, so each one goes one level
  below the one before. \<open>overflow_tree\<close> is the tree they build.
\<close>

definition overflow_keys :: "32 word list" where
  "overflow_keys = [0, 6, 30, 210, 2310, 30030, 510510, 9699690, 223092870]"

definition overflow_tree :: "unit htree" where
  "overflow_tree =
     \<lparr>root =
        Node None 0 0
         [Node (Some (Item 0 ())) 1 0
           [Node (Some (Item 6 ())) 2 0
             [Node (Some (Item 30 ())) 3 0
               [Node (Some (Item 210 ())) 4 0
                 [Node (Some (Item 2310 ())) 5 0
                   [Node (Some (Item 30030 ())) 6 0
                     [Node (Some (Item 510510 ())) 7 0
                       [Node (Some (Item 9699690 ())) 8 0
                         [Node (Some (Item 223092870 ())) 9 0 []]]]]]]]]],
      tree_length = 9, conflicts = 0\<rparr>"

section \<open>Properties\<close>

subsection \<open>Indexing and the binary search\<close>

lemma index_in_set: "index xs j = Inr x \<Longrightarrow> x \<in> set xs"
  by (auto simp: index_def split: if_splits)

lemma search_loop_range:
  "0 \<le> left \<Longrightarrow> left \<le> right \<Longrightarrow> right < int (length s) \<Longrightarrow>
   \<exists>p. search_loop s r left right = Inr (p, p) \<and> left \<le> p \<and> p \<le> right"
proof (induction s r left right rule: search_loop.induct)
  case (1 s r left right)
  show ?case
  proof (cases "left < right")
    case False
    with "1.prems" show ?thesis by simp
  next
    case True
    define mid where "mid = (left + right) div 2"
    have mid: "left \<le> mid" "mid < right" using True by (auto simp: mid_def)
    then have ix: "index s mid = Inr (s ! nat mid)"
      using "1.prems" by (simp add: index_def)
    show ?thesis
    proof (cases "sint (remainder (s ! nat mid)) < sint r")
      case lt: True
      have "\<exists>p. search_loop s r (mid + 1) right = Inr (p, p) \<and> mid + 1 \<le> p \<and> p \<le> right"
        using "1.IH"(1)[OF True mid_def ix lt] mid "1.prems" by simp
      then show ?thesis
        using True ix lt mid by (subst search_loop.simps) (auto simp: mid_def[symmetric])
    next
      case ge: False
      have "\<exists>p. search_loop s r left mid = Inr (p, p) \<and> left \<le> p \<and> p \<le> mid"
        using "1.IH"(2)[OF True mid_def ix ge] mid "1.prems" by simp
      then show ?thesis
        using True ix ge mid by (subst search_loop.simps) (auto simp: mid_def[symmetric])
    qed
  qed
qed

lemma sint_eq: "sint (a :: 8 word) = sint b \<longleftrightarrow> a = b"
  by (auto intro: signed_word_eqI)

lemma siblings_sorted_iff: "siblings_sorted cs \<longleftrightarrow> ascending cs"
proof (induction cs)
  case Nil
  show ?case by (simp add: siblings_sorted_def ascending_def)
next
  case (Cons c cs)
  have "(remainder c \<notin> remainder ` set cs \<and> (\<forall>x\<in>set cs. sint (remainder c) \<le> sint (remainder x)))
      \<longleftrightarrow> (\<forall>x\<in>set cs. sint (remainder c) < sint (remainder x))"
    by (auto simp: order_less_le sint_eq)
  with Cons show ?case
    by (auto simp: siblings_sorted_def ascending_def)
qed

lemma ascending_nth:
  "ascending cs \<Longrightarrow> a < b \<Longrightarrow> b < length cs \<Longrightarrow> sint (remainder (cs ! a)) < sint (remainder (cs ! b))"
  by (simp add: ascending_def sorted_wrt_iff_nth_less)

lemma ascending_nth_le:
  "ascending cs \<Longrightarrow> a \<le> b \<Longrightarrow> b < length cs \<Longrightarrow> sint (remainder (cs ! a)) \<le> sint (remainder (cs ! b))"
  using ascending_nth [of cs a b] by (cases "a = b") auto

lemma search_loop_sorted:
  "ascending s \<Longrightarrow> 0 \<le> left \<Longrightarrow> left \<le> right \<Longrightarrow> right < int (length s) \<Longrightarrow>
   (\<forall>j < nat left. sint (remainder (s ! j)) < sint r) \<Longrightarrow>
   (right = int (length s) - 1 \<or> sint r \<le> sint (remainder (s ! nat right))) \<Longrightarrow>
   \<exists>p. search_loop s r left right = Inr (int p, int p) \<and> p < length s \<and>
       (\<forall>j < p. sint (remainder (s ! j)) < sint r) \<and>
       (p = length s - 1 \<or> sint r \<le> sint (remainder (s ! p)))"
proof (induction s r left right rule: search_loop.induct)
  case (1 s r left right)
  show ?case
  proof (cases "left < right")
    case False
    with "1.prems" have eq: "left = right" by simp
    with "1.prems" have "nat right < length s" by linarith
    with "1.prems" eq show ?thesis
      by (subst search_loop.simps) (auto intro!: exI [of _ "nat right"])
  next
    case True
    define mid where "mid = (left + right) div 2"
    have mid: "left \<le> mid" "mid < right" using True by (auto simp: mid_def)
    then have ix: "index s mid = Inr (s ! nat mid)"
      using "1.prems" by (simp add: index_def)
    show ?thesis
    proof (cases "sint (remainder (s ! nat mid)) < sint r")
      case lt: True
      have "\<forall>j < nat (mid + 1). sint (remainder (s ! j)) < sint r"
      proof (intro allI impI)
        fix j assume "j < nat (mid + 1)"
        then have "j \<le> nat mid" using mid "1.prems" by linarith
        moreover have "nat mid < length s" using mid "1.prems" by linarith
        ultimately have "sint (remainder (s ! j)) \<le> sint (remainder (s ! nat mid))"
          using ascending_nth_le "1.prems"(1) by blast
        with lt show "sint (remainder (s ! j)) < sint r" by simp
      qed
      then have "\<exists>p. search_loop s r (mid + 1) right = Inr (int p, int p) \<and> p < length s \<and>
         (\<forall>j < p. sint (remainder (s ! j)) < sint r) \<and>
         (p = length s - 1 \<or> sint r \<le> sint (remainder (s ! p)))"
        using "1.IH"(1)[OF True mid_def ix lt] mid "1.prems" by simp
      then show ?thesis
        using True ix lt by (subst search_loop.simps) (simp add: mid_def[symmetric])
    next
      case ge: False
      have "\<exists>p. search_loop s r left mid = Inr (int p, int p) \<and> p < length s \<and>
         (\<forall>j < p. sint (remainder (s ! j)) < sint r) \<and>
         (p = length s - 1 \<or> sint r \<le> sint (remainder (s ! p)))"
        using "1.IH"(2)[OF True mid_def ix ge] mid "1.prems" ge by simp
      then show ?thesis
        using True ix ge by (subst search_loop.simps) (simp add: mid_def[symmetric])
    qed
  qed
qed

lemma search_empty: "search [] r = Inr (False, 0, -1)"
  by (simp add: search_def)

lemma search_general:
  assumes "s \<noteq> []"
  shows "\<exists>p. p < length s \<and> search s r = Inr (r = remainder (s ! p), int p, int p)"
proof -
  have "\<exists>p. search_loop s r 0 (int (length s) - 1) = Inr (p, p) \<and> 0 \<le> p \<and> p \<le> int (length s) - 1"
    using assms by (intro search_loop_range) auto
  then obtain p where p: "search_loop s r 0 (int (length s) - 1) = Inr (p, p)" "0 \<le> p" "p < int (length s)"
    by auto
  then have "search s r = Inr (r = remainder (s ! nat p), int (nat p), int (nat p))"
    by (simp add: search_def index_def)
  with p show ?thesis by (intro exI [of _ "nat p"]) auto
qed

lemma search_sorted:
  assumes "ascending s" "s \<noteq> []"
  shows "\<exists>p. p < length s \<and> search s r = Inr (r = remainder (s ! p), int p, int p) \<and>
       (\<forall>j < p. sint (remainder (s ! j)) < sint r) \<and>
       (p = length s - 1 \<or> sint r \<le> sint (remainder (s ! p)))"
proof -
  have "\<exists>p. search_loop s r 0 (int (length s) - 1) = Inr (int p, int p) \<and> p < length s \<and>
       (\<forall>j < p. sint (remainder (s ! j)) < sint r) \<and>
       (p = length s - 1 \<or> sint r \<le> sint (remainder (s ! p)))"
    using assms by (intro search_loop_sorted) auto
  then obtain p where p: "search_loop s r 0 (int (length s) - 1) = Inr (int p, int p)" "p < length s"
     "\<forall>j < p. sint (remainder (s ! j)) < sint r" "p = length s - 1 \<or> sint r \<le> sint (remainder (s ! p))"
    by auto
  then have "search s r = Inr (r = remainder (s ! p), int p, int p)"
    by (simp add: search_def index_def)
  with p show ?thesis by blast
qed

lemma search_sorted_miss:
  assumes "ascending s" "search s r = Inr (False, left, right)" "c \<in> set s"
  shows "remainder c \<noteq> r"
proof (cases "s = []")
  case True with assms show ?thesis by simp
next
  case False
  from search_sorted [OF assms(1) False, of r] obtain p where
    p: "p < length s" "search s r = Inr (r = remainder (s ! p), int p, int p)"
       "\<forall>j < p. sint (remainder (s ! j)) < sint r"
       "p = length s - 1 \<or> sint r \<le> sint (remainder (s ! p))" by blast
  with assms(2) have ne: "r \<noteq> remainder (s ! p)" by auto
  from assms(3) obtain j where j: "j < length s" "c = s ! j" by (auto simp: in_set_conv_nth)
  show ?thesis
  proof (cases "j < p")
    case True with p(3) j show ?thesis by auto
  next
    case jp: False
    then have le: "sint (remainder (s ! p)) \<le> sint (remainder (s ! j))"
      using ascending_nth_le [OF assms(1), of p j] j by simp
    show ?thesis
    proof (cases "sint r \<le> sint (remainder (s ! p))")
      case True
      with ne have "sint r < sint (remainder (s ! p))" by (auto simp: order_less_le sint_eq)
      with le j show ?thesis by auto
    next
      case False
      with p(4) have "p = length s - 1" by simp
      with jp j have "j = p" by simp
      with ne j show ?thesis by simp
    qed
  qed
qed

subsection \<open>Where \<^verbatim>\<open>put\<close> places a new child\<close>

lemma ascending_append:
  "ascending (xs @ ys) \<longleftrightarrow> ascending xs \<and> ascending ys \<and>
     (\<forall>x\<in>set xs. \<forall>y\<in>set ys. sint (remainder x) < sint (remainder y))"
  by (simp add: ascending_def sorted_wrt_append)

lemma ascending_Cons:
  "ascending (x # ys) \<longleftrightarrow> ascending ys \<and> (\<forall>y\<in>set ys. sint (remainder x) < sint (remainder y))"
  by (auto simp add: ascending_def)

lemma ascending_Nil: "ascending []"
  by (simp add: ascending_def)

lemma placement:
  assumes "search cs r = Inr (False, left, right)"
  shows "\<exists>at_end ys zs.
    (if length cs = 0 then Inr True
     else if right = int (length cs) - 1 then
       (case index cs right of Inl e \<Rightarrow> Inl e | Inr c \<Rightarrow> Inr (sint (remainder c) \<le> sint r))
     else Inr False) = (Inr at_end :: error + bool) \<and>
    (if at_end then Inr (cs @ [child]) else children_insert cs right child) = Inr (ys @ child # zs) \<and>
    cs = ys @ zs \<and>
    (ascending cs \<longrightarrow> remainder child = r \<longrightarrow> ascending (ys @ child # zs))"
proof (cases "cs = []")
  case True
  then show ?thesis
    by (intro exI [of _ True] exI [of _ "[]"]) (simp add: ascending_def)
next
  case False
  from search_general [OF False, of r] assms obtain p where
    p: "p < length cs" "left = int p" "right = int p" "r \<noteq> remainder (cs ! p)"
    by auto
  have sorted_facts: "(\<forall>j < p. sint (remainder (cs ! j)) < sint r) \<and>
       (p = length cs - 1 \<or> sint r \<le> sint (remainder (cs ! p)))" if "ascending cs"
    using search_sorted [OF that False, of r] assms p by auto
  have ix: "index cs right = Inr (cs ! p)"
    using p by (simp add: index_def)
  show ?thesis
  proof (cases "right = int (length cs) - 1 \<and> sint (remainder (cs ! p)) \<le> sint r")
    case True
    have "ascending (cs @ [child])" if asc: "ascending cs" and rc: "remainder child = r"
    proof -
      have "sint (remainder x) < sint r" if "x \<in> set cs" for x
      proof -
        from that obtain j where j: "j < length cs" "x = cs ! j" by (auto simp: in_set_conv_nth)
        with True p have "j \<le> p" by simp
        then have "sint (remainder x) \<le> sint (remainder (cs ! p))"
          using ascending_nth_le [OF asc, of j p] p j by simp
        with True have "sint (remainder x) \<le> sint r" by simp
        moreover have "remainder x \<noteq> r"
          using search_sorted_miss [OF asc assms that] .
        ultimately show ?thesis by (auto simp: order_less_le sint_eq)
      qed
      with asc rc show ?thesis by (simp add: ascending_append ascending_Cons ascending_Nil)
    qed
    with True False ix show ?thesis
      by (intro exI [of _ True] exI [of _ cs] exI [of _ "[]"]) simp
  next
    case ins: False
    have e1: "(if length cs = 0 then Inr True
     else if right = int (length cs) - 1 then
       (case index cs right of Inl e \<Rightarrow> Inl e | Inr c \<Rightarrow> Inr (sint (remainder c) \<le> sint r))
     else Inr False) = (Inr False :: error + bool)"
      using ins False ix by auto
    have e2: "children_insert cs right child = Inr (take p cs @ child # drop p cs)"
      using p by (simp add: children_insert_def)
    have "ascending (take p cs @ child # drop p cs)" if asc: "ascending cs" and rc: "remainder child = r"
    proof -
      from sorted_facts [OF asc] have lo: "\<forall>j < p. sint (remainder (cs ! j)) < sint r"
        and hi: "p = length cs - 1 \<or> sint r \<le> sint (remainder (cs ! p))" by auto
      have "sint r \<le> sint (remainder (cs ! p))"
        using hi ins p by (cases "p = length cs - 1") auto
      with p have gt: "sint r < sint (remainder (cs ! p))"
        by (auto simp: order_less_le sint_eq)
      have a: "sint (remainder x) < sint r" if "x \<in> set (take p cs)" for x
        using that lo p by (auto simp: in_set_conv_nth)
      have b: "sint r < sint (remainder y)" if "y \<in> set (drop p cs)" for y
      proof -
        from that obtain j where j: "j < length cs - p" "y = cs ! (p + j)"
          by (auto simp: in_set_conv_nth)
        then have "sint (remainder (cs ! p)) \<le> sint (remainder y)"
          using ascending_nth_le [OF asc, of p "p + j"] by simp
        with gt show ?thesis by simp
      qed
      have "ascending (take p cs) \<and> ascending (drop p cs)"
        using asc ascending_append [of "take p cs" "drop p cs"] by simp
      moreover have "sint (remainder x) < sint (remainder y)"
        if "x \<in> set (take p cs)" "y \<in> set (drop p cs)" for x y
        using a [OF that(1)] b [OF that(2)] by simp
      ultimately show ?thesis
        using a b rc by (auto simp: ascending_append ascending_Cons)
    qed
    with e1 e2 show ?thesis
      by (intro exI [of _ False] exI [of _ "take p cs"] exI [of _ "drop p cs"]) simp
  qed
qed

lemma item_Key_Inr: "item_Key io = Inr k \<longleftrightarrow> (\<exists>x. io = Some x \<and> k = Key x)"
  by (auto simp: item_Key_def split: option.splits)

lemma put_cases [consumes 1, case_names conflict descend overflow insert]:
  assumes "put (Node i0 d rm cs) it len conf = Inr (res, n', len', conf')"
  obtains
    (conflict) r left right child x where
      "modulo_key (Key it) d = Inr r" "search cs r = Inr (True, left, right)"
      "index cs left = Inr child" "item child = Some x" "Key x = Key it"
      "res = Some x" "n' = Node i0 d rm cs" "len' = len" "conf' = conf + 1"
  | (descend) r left right child x child' where
      "modulo_key (Key it) d = Inr r" "search cs r = Inr (True, left, right)"
      "index cs left = Inr child" "item child = Some x" "Key x \<noteq> Key it"
      "put child it len conf = Inr (res, child', len', conf')"
      "n' = Node i0 d rm (cs[nat left := child'])"
  | (overflow) r left right where
      "modulo_key (Key it) d = Inr r" "search cs r = Inr (False, left, right)"
      "int (length primes) - 1 \<le> sint d"
      "res = None" "n' = Node i0 d rm cs" "len' = len" "conf' = conf"
  | (insert) r left right ys zs where
      "modulo_key (Key it) d = Inr r" "search cs r = Inr (False, left, right)"
      "sint d < int (length primes) - 1"
      "cs = ys @ zs" "n' = Node i0 d rm (ys @ Node (Some it) (d + 1) r [] # zs)"
      "res = Some it" "len' = len + 1" "conf' = conf"
      "ascending cs \<longrightarrow> ascending (ys @ Node (Some it) (d + 1) r [] # zs)"
proof -
  from assms obtain r where r: "modulo_key (Key it) d = Inr r"
    by (auto split: sum.splits)
  with assms obtain ok left right where s: "search cs r = Inr (ok, left, right)"
    by (auto split: sum.splits)
  show thesis
  proof (cases ok)
    case True
    with assms r s obtain child where c: "index cs left = Inr child"
      by (auto split: sum.splits)
    with assms r s True obtain x where x: "item child = Some x"
      by (auto simp: item_Key_Inr split: sum.splits)
    show thesis
    proof (cases "Key x = Key it")
      case eq: True
      with assms r s True c x show thesis
        by (intro conflict [of r left right child x]) (auto simp: item_Key_def)
    next
      case ne: False
      with assms r s True c x obtain child' where
        "put child it len conf = Inr (res, child', len', conf')"
        "n' = Node i0 d rm (cs[nat left := child'])"
        by (auto simp: item_Key_def split: sum.splits)
      with r s True c x ne show thesis
        by (intro descend [of r left right child x child']) auto
    qed
  next
    case False
    show thesis
    proof (cases "int (length primes) - 1 \<le> sint d")
      case True
      with assms r s False show thesis
        by (intro overflow [of r left right]) auto
    next
      case room: False
      have s': "search cs r = Inr (False, left, right)"
        using s False by simp
      from placement [OF s', of "newNode (Some it) (d + 1) r"]
      obtain at_end ys zs where pl:
        "(if length cs = 0 then Inr True
          else if right = int (length cs) - 1 then
            (case index cs right of Inl e \<Rightarrow> Inl e | Inr c \<Rightarrow> Inr (sint (remainder c) \<le> sint r))
          else Inr False) = (Inr at_end :: error + bool)"
        "(if at_end then Inr (cs @ [newNode (Some it) (d + 1) r])
          else children_insert cs right (newNode (Some it) (d + 1) r))
           = Inr (ys @ newNode (Some it) (d + 1) r # zs)"
        "cs = ys @ zs"
        "ascending cs \<longrightarrow> remainder (newNode (Some it) (d + 1) r) = r \<longrightarrow>
           ascending (ys @ newNode (Some it) (d + 1) r # zs)"
        by blast
      have "put (Node i0 d rm cs) it len conf =
          Inr (Some it, Node i0 d rm (ys @ newNode (Some it) (d + 1) r # zs), len + 1, conf)"
        using r s False room pl(1,2) by (cases at_end) (simp_all add: newNode_def)
      with assms pl(3,4) r s False room show thesis
        by (intro insert [of r left right ys zs]) (auto simp: newNode_def)
    qed
  qed
qed

subsection \<open>The cases of \<^verbatim>\<open>get\<close> and \<^verbatim>\<open>delete\<close>\<close>

lemma index_update_same: "index cs j = Inr c \<Longrightarrow> cs[nat j := c] = cs"
  by (auto simp: index_def split: if_splits)

lemma index_split:
  "index cs j = Inr c \<Longrightarrow> cs = take (nat j) cs @ c # drop (Suc (nat j)) cs \<and> nat j < length cs"
  by (auto simp: index_def id_take_nth_drop split: if_splits)

lemma update_split:
  "index cs j = Inr c \<Longrightarrow> cs[nat j := c'] = take (nat j) cs @ c' # drop (Suc (nat j)) cs"
  by (auto simp: index_def upd_conv_take_nth_drop split: if_splits)

lemma get_cases [consumes 1, case_names found descend miss]:
  assumes "get (Node i0 d rm cs) it = Inr res"
  obtains
    (found) r left right child x where
      "modulo_key (Key it) d = Inr r" "search cs r = Inr (True, left, right)"
      "index cs left = Inr child" "item child = Some x" "Key x = Key it" "res = Some x"
  | (descend) r left right child x where
      "modulo_key (Key it) d = Inr r" "search cs r = Inr (True, left, right)"
      "index cs left = Inr child" "item child = Some x" "Key x \<noteq> Key it"
      "get child it = Inr res"
  | (miss) r left right where
      "modulo_key (Key it) d = Inr r" "search cs r = Inr (False, left, right)" "res = None"
proof -
  from assms obtain r where r: "modulo_key (Key it) d = Inr r"
    by (auto split: sum.splits)
  with assms obtain ok left right where s: "search cs r = Inr (ok, left, right)"
    by (auto split: sum.splits)
  show thesis
  proof (cases ok)
    case True
    with assms r s obtain child where c: "index cs left = Inr child"
      by (auto split: sum.splits)
    with assms r s True obtain x where x: "item child = Some x"
      by (auto simp: item_Key_Inr split: sum.splits)
    show thesis
    proof (cases "Key x = Key it")
      case eq: True
      with assms r s True c x show thesis
        by (intro found [of r left right child x]) (auto simp: item_Key_def)
    next
      case ne: False
      with assms r s True c x show thesis
        by (intro descend [of r left right child x]) (auto simp: item_Key_def)
    qed
  next
    case False
    with assms r s show thesis
      by (intro miss [of r left right]) auto
  qed
qed

lemma detach_leaf_Nil: "detach_leaf (Node i0 d rm []) = Inl IndexOutOfRange"
  by (simp add: index_def)

lemma detach_leaf_Cons:
  "detach_leaf (Node i0 d rm (c # cs)) =
     (if children c = [] then Inr (item c, Node i0 d rm cs)
      else case detach_leaf c of
             Inl e \<Rightarrow> Inl e
           | Inr (li, c') \<Rightarrow> Inr (li, Node i0 d rm (c' # cs)))"
  by (auto simp: index_def children_delete_def split: sum.splits)

lemma detach_leaf_spec:
  "children nd \<noteq> [] \<Longrightarrow> detach_leaf nd = Inr (item (first_leaf nd), without_first_leaf nd)"
proof (induction nd rule: first_leaf.induct)
  case (1 i0 d rm)
  then show ?case by simp
next
  case (2 i0 d rm c cs)
  show ?case
  proof (cases "children c = []")
    case True
    then show ?thesis
      by (cases c) (simp add: detach_leaf_Cons del: detach_leaf.simps)
  next
    case False
    with 2 show ?thesis
      by (simp add: detach_leaf_Cons del: detach_leaf.simps)
  qed
qed

lemma delete_cases [consumes 1, case_names leaf promote descend miss]:
  assumes "delete (Node i0 d rm cs) it len = Inr (res, n', len')"
  obtains
    (leaf) r left right child x where
      "modulo_key (Key it) d = Inr r" "search cs r = Inr (True, left, right)"
      "index cs left = Inr child" "item child = Some x" "Key x = Key it"
      "children child = []"
      "n' = Node i0 d rm (take (nat left) cs @ drop (Suc (nat left)) cs)"
      "res = Some x" "len' = len - 1"
  | (promote) r left right child x where
      "modulo_key (Key it) d = Inr r" "search cs r = Inr (True, left, right)"
      "index cs left = Inr child" "item child = Some x" "Key x = Key it"
      "children child \<noteq> []"
      "n' = Node i0 d rm (cs[nat left := Node (item (first_leaf child)) (depth child)
             (remainder child) (children (without_first_leaf child))])"
      "res = Some x" "len' = len - 1"
  | (descend) r left right child x child' where
      "modulo_key (Key it) d = Inr r" "search cs r = Inr (True, left, right)"
      "index cs left = Inr child" "item child = Some x" "Key x \<noteq> Key it"
      "delete child it len = Inr (res, child', len')"
      "n' = Node i0 d rm (cs[nat left := child'])"
  | (miss) r left right where
      "modulo_key (Key it) d = Inr r" "search cs r = Inr (False, left, right)"
      "res = None" "n' = Node i0 d rm cs" "len' = len"
proof -
  from assms obtain r where r: "modulo_key (Key it) d = Inr r"
    by (auto split: sum.splits)
  with assms obtain ok left right where s: "search cs r = Inr (ok, left, right)"
    by (auto split: sum.splits)
  show thesis
  proof (cases ok)
    case True
    with assms r s obtain child where c: "index cs left = Inr child"
      by (auto split: sum.splits)
    with assms r s True obtain x where x: "item child = Some x"
      by (auto simp: item_Key_Inr split: sum.splits)
    have rng: "0 \<le> left" "left < int (length cs)"
      using c by (auto simp: index_def split: if_splits)
    show thesis
    proof (cases "Key x = Key it")
      case eq: True
      show thesis
      proof (cases "children child = []")
        case True
        with assms r s \<open>ok\<close> c x eq rng show thesis
          by (intro leaf [of r left right child x])
             (auto simp: item_Key_def children_delete_def)
      next
        case False
        with assms r s \<open>ok\<close> c x eq rng show thesis
          by (intro promote [of r left right child x])
             (auto simp: item_Key_def detach_leaf_spec)
      qed
    next
      case ne: False
      with assms r s True c x obtain child' where
        "delete child it len = Inr (res, child', len')"
        "n' = Node i0 d rm (cs[nat left := child'])"
        by (auto simp: item_Key_def split: sum.splits)
      with r s True c x ne show thesis
        by (intro descend [of r left right child x child']) auto
    qed
  next
    case False
    with assms r s show thesis
      by (intro miss [of r left right]) auto
  qed
qed

subsection \<open>What \<^verbatim>\<open>put\<close> changes\<close>

lemma preorder_eq: "preorder nd = item nd # below nd"
  by (cases nd) (simp add: below_def)

lemma below_Node: "below (Node i0 d rm cs) = concat (map preorder cs)"
  by (simp add: below_def)

lemma search_hit:
  "search cs r = Inr (True, left, right) \<Longrightarrow> index cs left = Inr child \<Longrightarrow> remainder child = r"
  by (auto simp: search_def split: sum.splits if_splits)

lemma ascending_update:
  assumes "ascending cs" "index cs j = Inr c" "remainder c' = remainder c"
  shows "ascending (cs[nat j := c'])"
proof -
  have j: "nat j < length cs" "cs ! nat j = c"
    using assms(2) by (auto simp: index_def split: if_splits)
  have "remainder ((cs[nat j := c']) ! a) = remainder (cs ! a)" if "a < length cs" for a
    using that j assms(3) by (cases "a = nat j") auto
  then show ?thesis
    using assms(1) by (simp add: ascending_def sorted_wrt_iff_nth_less)
qed

lemma ascending_remove:
  "ascending cs \<Longrightarrow> ascending (take a cs @ drop (Suc a) cs)"
proof -
  assume asc: "ascending cs"
  have "ascending (take a cs @ drop a cs)" using asc by simp
  then have 1: "ascending (take a cs)" "ascending (drop a cs)"
    "\<forall>x\<in>set (take a cs). \<forall>y\<in>set (drop a cs). sint (remainder x) < sint (remainder y)"
    unfolding ascending_append by auto
  have "ascending (drop (Suc a) cs)"
    using 1(2) by (cases "drop a cs") (auto simp: ascending_Cons drop_Suc tl_drop [symmetric] ascending_Nil)
  moreover have "set (drop (Suc a) cs) \<subseteq> set (drop a cs)"
    by (simp add: set_drop_subset_set_drop)
  ultimately show ?thesis
    using 1 unfolding ascending_append by blast
qed

lemma put_frame:
  assumes "put nd it len conf = Inr (res, n', len', conf')"
  shows "item n' = item nd \<and> depth n' = depth nd \<and> remainder n' = remainder nd"
proof (cases nd)
  case (Node i0 d rm cs)
  from assms [unfolded Node] show ?thesis
    by (cases rule: put_cases) (simp_all add: Node)
qed

lemma delete_frame:
  assumes "delete nd it len = Inr (res, n', len')"
  shows "item n' = item nd \<and> depth n' = depth nd \<and> remainder n' = remainder nd"
proof (cases nd)
  case (Node i0 d rm cs)
  from assms [unfolded Node] show ?thesis
    by (cases rule: delete_cases) (simp_all add: Node)
qed

lemma mset_below_update:
  assumes "index cs j = Inr c" "item c' = item c"
    "mset (below c') = add_mset y (mset (below c))"
  shows "mset (below (Node i0 d rm (cs[nat j := c']))) = add_mset y (mset (below (Node i0 d rm cs)))"
proof -
  have "mset (concat (map preorder (take (nat j) cs @ c' # drop (Suc (nat j)) cs))) =
        add_mset y (mset (concat (map preorder (take (nat j) cs @ c # drop (Suc (nat j)) cs))))"
    using assms(2,3) by (simp add: preorder_eq)
  then show ?thesis
    using index_split [OF assms(1)] update_split [OF assms(1), of c'] by (simp add: below_Node)
qed

lemma mset_below_update_less:
  assumes "index cs j = Inr c" "item c' = item c"
    "mset (below c) = add_mset y (mset (below c'))"
  shows "mset (below (Node i0 d rm cs)) = add_mset y (mset (below (Node i0 d rm (cs[nat j := c']))))"
proof -
  have "mset (concat (map preorder (take (nat j) cs @ c # drop (Suc (nat j)) cs))) =
        add_mset y (mset (concat (map preorder (take (nat j) cs @ c' # drop (Suc (nat j)) cs))))"
    using assms(2,3) by (simp add: preorder_eq)
  then show ?thesis
    using index_split [OF assms(1)] update_split [OF assms(1), of c'] by (simp add: below_Node)
qed

lemma put_effect:
  "put nd it len conf = Inr (res, n', len', conf') \<Longrightarrow>
   (n' = nd \<and> len' = len \<and>
      (res = None \<and> conf' = conf \<or>
       res \<in> set (below nd) \<and> map_option Key res = Some (Key it) \<and> conf' = conf + 1)) \<or>
   (mset (below n') = add_mset (Some it) (mset (below nd)) \<and>
      len' = len + 1 \<and> conf' = conf \<and> res = Some it)"
proof (induction nd it len conf arbitrary: res n' len' conf' rule: put.induct)
  case (1 i0 d rm cs it len conf)
  from "1.prems" show ?case
  proof (cases rule: put_cases)
    case (conflict r left right child x)
    have "Some x \<in> set (preorder child)"
      using conflict(4) by (simp add: preorder_eq)
    with index_in_set [OF conflict(3)] have "Some x \<in> set (below (Node i0 d rm cs))"
      by (auto simp: below_Node)
    with conflict show ?thesis by simp
  next
    case (descend r left right child x child')
    have k: "item_Key (item child) = Inr (Key x)"
      using descend(4) by (simp add: item_Key_def)
    note IH = "1.IH" [OF descend(1) descend(2) refl refl _ descend(3) k _ descend(6)]
    have fr: "item child' = item child"
      using put_frame [OF descend(6)] by simp
    from IH descend(5) consider
      (same) "child' = child" "len' = len"
        "res = None \<and> conf' = conf \<or>
         res \<in> set (below child) \<and> map_option Key res = Some (Key it) \<and> conf' = conf + 1"
    | (new) "mset (below child') = add_mset (Some it) (mset (below child))"
        "len' = len + 1" "conf' = conf" "res = Some it"
      by auto
    then show ?thesis
    proof cases
      case same
      have "n' = Node i0 d rm cs"
        using descend(7) same(1) index_update_same [OF descend(3)] by simp
      moreover have "set (below child) \<subseteq> set (below (Node i0 d rm cs))"
        using index_in_set [OF descend(3)] by (auto simp: below_Node preorder_eq)
      ultimately show ?thesis using same by auto
    next
      case new
      have "mset (below n') = add_mset (Some it) (mset (below (Node i0 d rm cs)))"
        unfolding descend(7) by (rule mset_below_update [OF descend(3) fr new(1)])
      with new show ?thesis by simp
    qed
  next
    case (overflow r left right)
    then show ?thesis by simp
  next
    case (insert r left right ys zs)
    then show ?thesis by (simp add: below_Node)
  qed
qed

subsection \<open>\<^verbatim>\<open>put\<close> keeps the invariants of a node\<close>

lemma sint_succ:
  fixes d :: "8 word"
  assumes "0 \<le> sint d" "sint d < 9"
  shows "sint (d + 1) = sint d + 1"
proof -
  have "sint (d + 1) = signed_take_bit 7 (sint d + 1)"
    by (simp add: sint_word_ariths)
  also have "\<dots> = sint d + 1"
    using assms by (intro signed_take_bit_int_eq_self) auto
  finally show ?thesis .
qed

lemma put_preorder_subset:
  assumes "put nd it len conf = Inr (res, n', len', conf')"
  shows "set (preorder n') \<subseteq> insert (Some it) (set (preorder nd))"
proof -
  have fr: "item n' = item nd" using put_frame [OF assms] by simp
  from put_effect [OF assms] have "n' = nd \<or> mset (below n') = add_mset (Some it) (mset (below nd))"
    by auto
  then show ?thesis
  proof
    assume "n' = nd" then show ?thesis by auto
  next
    assume "mset (below n') = add_mset (Some it) (mset (below nd))"
    then have "set_mset (mset (below n')) = set_mset (add_mset (Some it) (mset (below nd)))"
      by simp
    then have "set (below n') = insert (Some it) (set (below nd))"
      by simp
    with fr show ?thesis by (auto simp: preorder_eq)
  qed
qed

lemma put_sibling_inv:
  "put nd it len conf = Inr (res, n', len', conf') \<Longrightarrow> sibling_inv nd \<Longrightarrow> sibling_inv n'"
proof (induction nd it len conf arbitrary: res n' len' conf' rule: put.induct)
  case (1 i0 d rm cs it len conf)
  from "1.prems"(2) have asc: "ascending cs" and sub: "\<forall>c\<in>set cs. sibling_inv c"
    by (simp_all add: siblings_sorted_iff)
  from "1.prems"(1) show ?case
  proof (cases rule: put_cases)
    case (conflict r left right child x)
    with "1.prems" show ?thesis by simp
  next
    case (descend r left right child x child')
    have k: "item_Key (item child) = Inr (Key x)"
      using descend(4) by (simp add: item_Key_def)
    have "sibling_inv child" using sub index_in_set [OF descend(3)] by blast
    then have c': "sibling_inv child'"
      using "1.IH" [OF descend(1) descend(2) refl refl _ descend(3) k _ descend(6)] descend(5)
      by simp
    have "ascending (cs[nat left := child'])"
      using asc descend(3) put_frame [OF descend(6)] by (intro ascending_update) auto
    moreover have "\<forall>c\<in>set (cs[nat left := child']). sibling_inv c"
      using sub c' set_update_subset_insert [of cs "nat left" child'] by blast
    ultimately show ?thesis
      unfolding descend(7) by (simp add: siblings_sorted_iff)
  next
    case (overflow r left right)
    with "1.prems" show ?thesis by simp
  next
    case (insert r left right ys zs)
    have "ascending (ys @ Node (Some it) (d + 1) r [] # zs)"
      using insert(9) asc by simp
    moreover have "\<forall>c\<in>set (ys @ Node (Some it) (d + 1) r [] # zs). sibling_inv c"
      using sub insert(4) by (auto simp: siblings_sorted_def)
    ultimately show ?thesis
      unfolding insert(5) by (simp add: siblings_sorted_iff)
  qed
qed

lemma put_path_inv:
  "put nd it len conf = Inr (res, n', len', conf') \<Longrightarrow> path_inv nd \<Longrightarrow> path_inv n'"
proof (induction nd it len conf arbitrary: res n' len' conf' rule: put.induct)
  case (1 i0 d rm cs it len conf)
  from "1.prems"(2) have sub:
    "\<forall>c\<in>set cs. (\<forall>x\<in>set (preorder c). residue_ok d (remainder c) x) \<and> path_inv c"
    by simp
  from "1.prems"(1) show ?case
  proof (cases rule: put_cases)
    case (conflict r left right child x)
    with "1.prems" show ?thesis by simp
  next
    case (descend r left right child x child')
    have k: "item_Key (item child) = Inr (Key x)"
      using descend(4) by (simp add: item_Key_def)
    have cin: "child \<in> set cs" using index_in_set [OF descend(3)] .
    then have "path_inv child" using sub by blast
    then have c': "path_inv child'"
      using "1.IH" [OF descend(1) descend(2) refl refl _ descend(3) k _ descend(6)] descend(5)
      by simp
    have rc: "remainder child = r" using search_hit [OF descend(2,3)] .
    have fr: "remainder child' = remainder child" using put_frame [OF descend(6)] by simp
    have new: "residue_ok d (remainder child') (Some it)"
      using descend(1) rc fr by (simp add: residue_ok_def)
    have "\<forall>x\<in>set (preorder child'). residue_ok d (remainder child') x"
      using put_preorder_subset [OF descend(6)] sub cin new fr by auto
    with c' sub have "\<forall>c\<in>set (cs[nat left := child']).
        (\<forall>x\<in>set (preorder c). residue_ok d (remainder c) x) \<and> path_inv c"
      using set_update_subset_insert [of cs "nat left" child'] by blast
    then show ?thesis
      unfolding descend(7) by simp
  next
    case (overflow r left right)
    with "1.prems" show ?thesis by simp
  next
    case (insert r left right ys zs)
    have "residue_ok d r (Some it)"
      using insert(1) by (simp add: residue_ok_def)
    then show ?thesis
      unfolding insert(5) using sub insert(4) by auto
  qed
qed

lemma put_depth_inv:
  "put nd it len conf = Inr (res, n', len', conf') \<Longrightarrow> depth_inv nd \<Longrightarrow> depth_inv n'"
proof (induction nd it len conf arbitrary: res n' len' conf' rule: put.induct)
  case (1 i0 d rm cs it len conf)
  from "1.prems"(2) have d: "0 \<le> sint d" "sint d < int (length primes)"
    and sub: "\<forall>c\<in>set cs. depth c = d + 1 \<and> depth_inv c"
    by simp_all
  from "1.prems"(1) show ?case
  proof (cases rule: put_cases)
    case (conflict r left right child x)
    with "1.prems" show ?thesis by simp
  next
    case (descend r left right child x child')
    have k: "item_Key (item child) = Inr (Key x)"
      using descend(4) by (simp add: item_Key_def)
    have cin: "child \<in> set cs" using index_in_set [OF descend(3)] .
    then have "depth_inv child" using sub by blast
    then have c': "depth_inv child'"
      using "1.IH" [OF descend(1) descend(2) refl refl _ descend(3) k _ descend(6)] descend(5)
      by simp
    have "depth child' = d + 1" using put_frame [OF descend(6)] sub cin by simp
    with c' sub have "\<forall>c\<in>set (cs[nat left := child']). depth c = d + 1 \<and> depth_inv c"
      using set_update_subset_insert [of cs "nat left" child'] by blast
    then show ?thesis
      unfolding descend(7) using d by simp
  next
    case (overflow r left right)
    with "1.prems" show ?thesis by simp
  next
    case (insert r left right ys zs)
    have "sint d < 9" using insert(3) by (simp add: primes_def)
    then have "sint (d + 1) = sint d + 1" using d by (intro sint_succ) auto
    with \<open>sint d < 9\<close> d have "depth_inv (Node (Some it) (d + 1) r [])"
      by (simp add: primes_def)
    then show ?thesis
      unfolding insert(5) using sub insert(4) d by auto
  qed
qed

subsection \<open>Taking out the first leaf, and what \<^verbatim>\<open>delete\<close> changes\<close>

lemma without_first_leaf_frame:
  "item (without_first_leaf nd) = item nd \<and> depth (without_first_leaf nd) = depth nd \<and>
   remainder (without_first_leaf nd) = remainder nd"
  by (cases nd rule: without_first_leaf.cases) auto

lemma first_leaf_of_leaf: "children nd = [] \<Longrightarrow> first_leaf nd = nd"
  by (cases nd) simp

lemma below_leaf: "children nd = [] \<Longrightarrow> below nd = []"
  by (simp add: below_def)

lemma mset_below_without_first_leaf:
  "children nd \<noteq> [] \<Longrightarrow>
   mset (below nd) = add_mset (item (first_leaf nd)) (mset (below (without_first_leaf nd)))"
proof (induction nd rule: first_leaf.induct)
  case (1 i0 d rm)
  then show ?case by simp
next
  case (2 i0 d rm c cs)
  show ?case
  proof (cases "children c = []")
    case True
    then show ?thesis
      by (simp add: below_Node preorder_eq below_leaf first_leaf_of_leaf)
  next
    case False
    with 2 show ?thesis
      by (simp add: below_Node preorder_eq without_first_leaf_frame)
  qed
qed

lemma set_below_without_first_leaf:
  assumes "children nd \<noteq> []"
  shows "set (below nd) = insert (item (first_leaf nd)) (set (below (without_first_leaf nd)))"
proof -
  have "set_mset (mset (below nd)) =
      set_mset (add_mset (item (first_leaf nd)) (mset (below (without_first_leaf nd))))"
    using mset_below_without_first_leaf [OF assms] by simp
  then show ?thesis by simp
qed

lemma preorder_without_first_leaf: "set (preorder (without_first_leaf nd)) \<subseteq> set (preorder nd)"
proof (cases "children nd = []")
  case True
  then show ?thesis by (cases nd) simp
next
  case False
  from set_below_without_first_leaf [OF False] show ?thesis
    by (auto simp: preorder_eq without_first_leaf_frame)
qed

lemma without_first_leaf_sibling_inv: "sibling_inv nd \<Longrightarrow> sibling_inv (without_first_leaf nd)"
proof (induction nd rule: without_first_leaf.induct)
  case (1 i0 d rm)
  then show ?case by simp
next
  case (2 i0 d rm c cs)
  then show ?case
    by (auto simp: siblings_sorted_iff ascending_Cons without_first_leaf_frame)
qed

lemma without_first_leaf_path_inv: "path_inv nd \<Longrightarrow> path_inv (without_first_leaf nd)"
proof (induction nd rule: without_first_leaf.induct)
  case (1 i0 d rm)
  then show ?case by simp
next
  case (2 i0 d rm c cs)
  then show ?case
    using preorder_without_first_leaf [of c]
    by (auto simp: without_first_leaf_frame)
qed

lemma without_first_leaf_depth_inv: "depth_inv nd \<Longrightarrow> depth_inv (without_first_leaf nd)"
proof (induction nd rule: without_first_leaf.induct)
  case (1 i0 d rm)
  then show ?case by simp
next
  case (2 i0 d rm c cs)
  then show ?case
    by (auto simp: without_first_leaf_frame)
qed

text \<open>The node that takes the place of a deleted node with children.\<close>

lemma promoted_preorder:
  assumes "children child \<noteq> []"
  shows "mset (below child) =
     mset (preorder (Node (item (first_leaf child)) dd rr (children (without_first_leaf child))))"
  using mset_below_without_first_leaf [OF assms] by (simp add: below_def)

lemma promoted_sibling_inv:
  "sibling_inv child \<Longrightarrow> sibling_inv (Node li dd rr (children (without_first_leaf child)))"
  using without_first_leaf_sibling_inv [of child]
  by (cases "without_first_leaf child") simp

lemma promoted_path_inv:
  "path_inv child \<Longrightarrow> path_inv (Node li (depth child) rr (children (without_first_leaf child)))"
  using without_first_leaf_path_inv [of child] without_first_leaf_frame [of child]
  by (cases "without_first_leaf child") simp

lemma promoted_depth_inv:
  "depth_inv child \<Longrightarrow> depth_inv (Node li (depth child) rr (children (without_first_leaf child)))"
  using without_first_leaf_depth_inv [of child] without_first_leaf_frame [of child]
  by (cases "without_first_leaf child") simp

lemma delete_effect:
  "delete nd it len = Inr (res, n', len') \<Longrightarrow>
   (res = None \<and> n' = nd \<and> len' = len) \<or>
   (\<exists>x. res = Some x \<and> Key x = Key it \<and>
        mset (below nd) = add_mset (Some x) (mset (below n')) \<and> len' = len - 1)"
proof (induction nd it len arbitrary: res n' len' rule: delete.induct)
  case (1 i0 d rm cs it len)
  from "1.prems" show ?case
  proof (cases rule: delete_cases)
    case (leaf r left right child x)
    have "mset (concat (map preorder (take (nat left) cs @ child # drop (Suc (nat left)) cs))) =
        add_mset (Some x) (mset (concat (map preorder (take (nat left) cs @ drop (Suc (nat left)) cs))))"
      using leaf(4,6) by (simp add: preorder_eq below_leaf)
    then have "mset (below (Node i0 d rm cs)) = add_mset (Some x) (mset (below n'))"
      using index_split [OF leaf(3)] unfolding leaf(7) by (simp add: below_Node)
    with leaf show ?thesis by simp
  next
    case (promote r left right child x)
    define R where "R = Node (item (first_leaf child)) (depth child) (remainder child)
       (children (without_first_leaf child))"
    have "mset (preorder child) = add_mset (Some x) (mset (preorder R))"
      using promoted_preorder [OF promote(6)] promote(4) unfolding R_def
      by (simp add: preorder_eq [of child])
    then have "mset (concat (map preorder (take (nat left) cs @ child # drop (Suc (nat left)) cs))) =
        add_mset (Some x) (mset (concat (map preorder (take (nat left) cs @ R # drop (Suc (nat left)) cs))))"
      by simp
    then have "mset (below (Node i0 d rm cs)) = add_mset (Some x) (mset (below n'))"
      using index_split [OF promote(3)] update_split [OF promote(3), of R]
      unfolding promote(7) R_def [symmetric] by (simp add: below_Node)
    with promote show ?thesis by simp
  next
    case (descend r left right child x child')
    have k: "item_Key (item child) = Inr (Key x)"
      using descend(4) by (simp add: item_Key_def)
    note IH = "1.IH" [OF descend(1) descend(2) refl refl _ descend(3) k _ descend(6)]
    have fr: "item child' = item child"
      using delete_frame [OF descend(6)] by simp
    from IH descend(5) consider
      (same) "res = None" "child' = child" "len' = len"
    | (gone) y where "res = Some y" "Key y = Key it"
        "mset (below child) = add_mset (Some y) (mset (below child'))" "len' = len - 1"
      by auto
    then show ?thesis
    proof cases
      case same
      then show ?thesis
        using descend(7) index_update_same [OF descend(3)] by simp
    next
      case gone
      have "mset (below (Node i0 d rm cs)) = add_mset (Some y) (mset (below n'))"
        unfolding descend(7) by (rule mset_below_update_less [OF descend(3) fr gone(3)])
      with gone show ?thesis by simp
    qed
  next
    case (miss r left right)
    then show ?thesis by simp
  qed
qed

lemma delete_preorder_subset:
  assumes "delete nd it len = Inr (res, n', len')"
  shows "set (preorder n') \<subseteq> set (preorder nd)"
proof -
  have fr: "item n' = item nd" using delete_frame [OF assms] by simp
  from delete_effect [OF assms] have
    "n' = nd \<or> (\<exists>x. mset (below nd) = add_mset (Some x) (mset (below n')))"
    by auto
  then show ?thesis
  proof
    assume "n' = nd" then show ?thesis by auto
  next
    assume "\<exists>x. mset (below nd) = add_mset (Some x) (mset (below n'))"
    then obtain x where "mset (below nd) = add_mset (Some x) (mset (below n'))" ..
    then have "set_mset (mset (below nd)) = set_mset (add_mset (Some x) (mset (below n')))"
      by simp
    then have "set (below nd) = insert (Some x) (set (below n'))"
      by simp
    with fr show ?thesis by (auto simp: preorder_eq)
  qed
qed

subsection \<open>\<^verbatim>\<open>delete\<close> keeps the invariants of a node\<close>

lemma set_remove_subset: "set (take a cs @ drop (Suc a) cs) \<subseteq> set cs"
  using set_take_subset [of a cs] set_drop_subset [of "Suc a" cs] by auto

lemma delete_sibling_inv:
  "delete nd it len = Inr (res, n', len') \<Longrightarrow> sibling_inv nd \<Longrightarrow> sibling_inv n'"
proof (induction nd it len arbitrary: res n' len' rule: delete.induct)
  case (1 i0 d rm cs it len)
  from "1.prems"(2) have asc: "ascending cs" and sub: "\<forall>c\<in>set cs. sibling_inv c"
    by (simp_all add: siblings_sorted_iff)
  from "1.prems"(1) show ?case
  proof (cases rule: delete_cases)
    case (leaf r left right child x)
    have "ascending (take (nat left) cs @ drop (Suc (nat left)) cs)"
      using asc by (rule ascending_remove)
    moreover have "\<forall>c\<in>set (take (nat left) cs @ drop (Suc (nat left)) cs). sibling_inv c"
      using sub set_remove_subset [of "nat left" cs] by blast
    ultimately show ?thesis
      unfolding leaf(7) by (simp add: siblings_sorted_iff)
  next
    case (promote r left right child x)
    define R where "R = Node (item (first_leaf child)) (depth child) (remainder child)
       (children (without_first_leaf child))"
    have "sibling_inv child" using sub index_in_set [OF promote(3)] by blast
    then have R: "sibling_inv R" unfolding R_def by (rule promoted_sibling_inv)
    have "ascending (cs[nat left := R])"
      using asc promote(3) by (rule ascending_update) (simp add: R_def)
    moreover have "\<forall>c\<in>set (cs[nat left := R]). sibling_inv c"
      using sub R set_update_subset_insert [of cs "nat left" R] by blast
    ultimately show ?thesis
      unfolding promote(7) R_def [symmetric] by (simp add: siblings_sorted_iff)
  next
    case (descend r left right child x child')
    have k: "item_Key (item child) = Inr (Key x)"
      using descend(4) by (simp add: item_Key_def)
    have "sibling_inv child" using sub index_in_set [OF descend(3)] by blast
    then have c': "sibling_inv child'"
      using "1.IH" [OF descend(1) descend(2) refl refl _ descend(3) k _ descend(6)] descend(5)
      by simp
    have "ascending (cs[nat left := child'])"
      using asc descend(3) delete_frame [OF descend(6)] by (intro ascending_update) auto
    moreover have "\<forall>c\<in>set (cs[nat left := child']). sibling_inv c"
      using sub c' set_update_subset_insert [of cs "nat left" child'] by blast
    ultimately show ?thesis
      unfolding descend(7) by (simp add: siblings_sorted_iff)
  next
    case (miss r left right)
    with "1.prems" show ?thesis by simp
  qed
qed

lemma delete_path_inv:
  "delete nd it len = Inr (res, n', len') \<Longrightarrow> path_inv nd \<Longrightarrow> path_inv n'"
proof (induction nd it len arbitrary: res n' len' rule: delete.induct)
  case (1 i0 d rm cs it len)
  from "1.prems"(2) have sub:
    "\<forall>c\<in>set cs. (\<forall>x\<in>set (preorder c). residue_ok d (remainder c) x) \<and> path_inv c"
    by simp
  from "1.prems"(1) show ?case
  proof (cases rule: delete_cases)
    case (leaf r left right child x)
    show ?thesis
      unfolding leaf(7) using sub set_remove_subset [of "nat left" cs] by auto
  next
    case (promote r left right child x)
    define R where "R = Node (item (first_leaf child)) (depth child) (remainder child)
       (children (without_first_leaf child))"
    have cin: "child \<in> set cs" using index_in_set [OF promote(3)] .
    then have "path_inv child" using sub by blast
    then have R: "path_inv R" unfolding R_def by (rule promoted_path_inv)
    have "set_mset (mset (preorder R)) = set_mset (mset (below child))"
      using promoted_preorder [OF promote(6), of "depth child" "remainder child"]
      unfolding R_def by simp
    then have "set (preorder R) \<subseteq> set (preorder child)"
      by (auto simp: preorder_eq [of child])
    moreover have "remainder R = remainder child" by (simp add: R_def)
    ultimately have "\<forall>x\<in>set (preorder R). residue_ok d (remainder R) x"
      using sub cin by auto
    with R sub have "\<forall>c\<in>set (cs[nat left := R]).
        (\<forall>x\<in>set (preorder c). residue_ok d (remainder c) x) \<and> path_inv c"
      using set_update_subset_insert [of cs "nat left" R] by blast
    then show ?thesis
      unfolding promote(7) R_def [symmetric] by simp
  next
    case (descend r left right child x child')
    have k: "item_Key (item child) = Inr (Key x)"
      using descend(4) by (simp add: item_Key_def)
    have cin: "child \<in> set cs" using index_in_set [OF descend(3)] .
    then have "path_inv child" using sub by blast
    then have c': "path_inv child'"
      using "1.IH" [OF descend(1) descend(2) refl refl _ descend(3) k _ descend(6)] descend(5)
      by simp
    have fr: "remainder child' = remainder child" using delete_frame [OF descend(6)] by simp
    have "\<forall>x\<in>set (preorder child'). residue_ok d (remainder child') x"
      using delete_preorder_subset [OF descend(6)] sub cin fr by auto
    with c' sub have "\<forall>c\<in>set (cs[nat left := child']).
        (\<forall>x\<in>set (preorder c). residue_ok d (remainder c) x) \<and> path_inv c"
      using set_update_subset_insert [of cs "nat left" child'] by blast
    then show ?thesis
      unfolding descend(7) by simp
  next
    case (miss r left right)
    with "1.prems" show ?thesis by simp
  qed
qed

lemma delete_depth_inv:
  "delete nd it len = Inr (res, n', len') \<Longrightarrow> depth_inv nd \<Longrightarrow> depth_inv n'"
proof (induction nd it len arbitrary: res n' len' rule: delete.induct)
  case (1 i0 d rm cs it len)
  from "1.prems"(2) have d: "0 \<le> sint d" "sint d < int (length primes)"
    and sub: "\<forall>c\<in>set cs. depth c = d + 1 \<and> depth_inv c"
    by simp_all
  from "1.prems"(1) show ?case
  proof (cases rule: delete_cases)
    case (leaf r left right child x)
    show ?thesis
      unfolding leaf(7) using d sub set_remove_subset [of "nat left" cs] by auto
  next
    case (promote r left right child x)
    define R where "R = Node (item (first_leaf child)) (depth child) (remainder child)
       (children (without_first_leaf child))"
    have cin: "child \<in> set cs" using index_in_set [OF promote(3)] .
    then have "depth_inv child" using sub by blast
    then have R: "depth_inv R" unfolding R_def by (rule promoted_depth_inv)
    have "depth R = d + 1" using sub cin by (simp add: R_def)
    with R sub have "\<forall>c\<in>set (cs[nat left := R]). depth c = d + 1 \<and> depth_inv c"
      using set_update_subset_insert [of cs "nat left" R] by blast
    then show ?thesis
      unfolding promote(7) R_def [symmetric] using d by simp
  next
    case (descend r left right child x child')
    have k: "item_Key (item child) = Inr (Key x)"
      using descend(4) by (simp add: item_Key_def)
    have cin: "child \<in> set cs" using index_in_set [OF descend(3)] .
    then have "depth_inv child" using sub by blast
    then have c': "depth_inv child'"
      using "1.IH" [OF descend(1) descend(2) refl refl _ descend(3) k _ descend(6)] descend(5)
      by simp
    have "depth child' = d + 1" using delete_frame [OF descend(6)] sub cin by simp
    with c' sub have "\<forall>c\<in>set (cs[nat left := child']). depth c = d + 1 \<and> depth_inv c"
      using set_update_subset_insert [of cs "nat left" child'] by blast
    then show ?thesis
      unfolding descend(7) using d by simp
  next
    case (miss r left right)
    with "1.prems" show ?thesis by simp
  qed
qed

subsection \<open>\<^verbatim>\<open>get\<close> finds what is stored, and \<^verbatim>\<open>put\<close> and \<^verbatim>\<open>delete\<close> follow it\<close>

lemma get_sound:
  "get nd it = Inr (Some y) \<Longrightarrow> Some y \<in> set (below nd) \<and> Key y = Key it"
proof (induction nd it rule: get.induct)
  case (1 i0 d rm cs it)
  from "1.prems" show ?case
  proof (cases rule: get_cases)
    case (found r left right child x)
    have "Some x \<in> set (preorder child)"
      using found(4) by (simp add: preorder_eq)
    with found show ?thesis
      using index_in_set [OF found(3)] by (auto simp: below_Node)
  next
    case (descend r left right child x)
    have k: "item_Key (item child) = Inr (Key x)"
      using descend(4) by (simp add: item_Key_def)
    from "1.IH" [OF descend(1) descend(2) refl refl _ descend(3) k _ descend(6)] descend(5)
    have "Some y \<in> set (below child) \<and> Key y = Key it" by simp
    moreover from this have "Some y \<in> set (preorder child)"
      by (simp add: preorder_eq)
    ultimately show ?thesis
      using index_in_set [OF descend(3)] by (auto simp: below_Node)
  next
    case (miss r left right)
    then show ?thesis by simp
  qed
qed

lemma modulo_key_total:
  "0 \<le> sint d \<Longrightarrow> sint d < int (length primes) \<Longrightarrow> \<exists>r. modulo_key k d = Inr r"
  by (simp add: modulo_key_def index_def)

lemma search_total: "\<exists>ok left right. search cs r = Inr (ok, left, right)"
proof (cases "cs = []")
  case True
  then show ?thesis by (auto simp: search_empty)
next
  case False
  from search_general [OF False, of r] show ?thesis by blast
qed

lemma search_hit_index:
  "search cs r = Inr (True, left, right) \<Longrightarrow> \<exists>child. index cs left = Inr child"
  by (auto simp: search_def split: sum.splits if_splits prod.splits)

lemma path_inv_item:
  "path_inv (Node i0 d rm cs) \<Longrightarrow> c \<in> set cs \<Longrightarrow> \<exists>x. item c = Some x"
  by (cases c) (auto simp: residue_ok_def split: option.splits)

lemma get_total:
  "depth_inv nd \<Longrightarrow> path_inv nd \<Longrightarrow> \<exists>res. get nd it = Inr res"
proof (induction nd it rule: get.induct)
  case (1 i0 d rm cs it)
  from "1.prems"(1) obtain r where r: "modulo_key (Key it) d = Inr r"
    using modulo_key_total [of d "Key it"] by auto
  obtain ok left right where s: "search cs r = Inr (ok, left, right)"
    using search_total [of cs r] by blast
  show ?case
  proof (cases ok)
    case False
    with r s show ?thesis by simp
  next
    case True
    with s have "search cs r = Inr (True, left, right)" by simp
    then obtain child where c: "index cs left = Inr child"
      using search_hit_index by blast
    then have cin: "child \<in> set cs" by (rule index_in_set)
    then obtain x where x: "item child = Some x"
      using path_inv_item [OF "1.prems"(2)] by blast
    then have k: "item_Key (item child) = Inr (Key x)"
      by (simp add: item_Key_def)
    show ?thesis
    proof (cases "Key x = Key it")
      case eq: True
      with r s True c k show ?thesis by simp
    next
      case ne: False
      have "depth_inv child" "path_inv child"
        using "1.prems" cin by auto
      then obtain res where "get child it = Inr res"
        using "1.IH" [OF r s refl refl _ c k] True ne by auto
      with r s True c k ne show ?thesis by simp
    qed
  qed
qed

lemma ascending_unique:
  assumes "ascending cs" "a \<in> set cs" "b \<in> set cs" "remainder a = remainder b"
  shows "a = b"
proof -
  from assms(2,3) obtain j l where jl: "j < length cs" "a = cs ! j" "l < length cs" "b = cs ! l"
    by (auto simp: in_set_conv_nth)
  have "j = l"
  proof (rule ccontr)
    assume "j \<noteq> l"
    then consider "j < l" | "l < j" by linarith
    then show False
      using ascending_nth [OF assms(1), of j l] ascending_nth [OF assms(1), of l j] jl assms(4)
      by cases auto
  qed
  with jl show ?thesis by simp
qed

lemma search_sorted_hit:
  assumes "ascending cs" "c \<in> set cs" "remainder c = r"
  shows "\<exists>left right. search cs r = Inr (True, left, right) \<and> index cs left = Inr c"
proof -
  have ne: "cs \<noteq> []" using assms(2) by auto
  from search_general [OF ne, of r] obtain p where
    p: "p < length cs" "search cs r = Inr (r = remainder (cs ! p), int p, int p)" by blast
  have hit: "r = remainder (cs ! p)"
  proof (rule ccontr)
    assume "r \<noteq> remainder (cs ! p)"
    with p have "search cs r = Inr (False, int p, int p)" by simp
    from search_sorted_miss [OF assms(1) this assms(2)] assms(3) show False by simp
  qed
  have "cs ! p = c"
    using ascending_unique [OF assms(1) _ assms(2)] p(1) hit assms(3) by auto
  with p hit show ?thesis
    by (auto simp: index_def)
qed

lemma get_complete:
  "sibling_inv nd \<Longrightarrow> path_inv nd \<Longrightarrow> Some x \<in> set (below nd) \<Longrightarrow> Key x = Key it \<Longrightarrow>
   \<exists>y. get nd it = Inr (Some y)"
proof (induction nd it rule: get.induct)
  case (1 i0 d rm cs it)
  from "1.prems"(1) have asc: "ascending cs" and sib: "\<forall>c\<in>set cs. sibling_inv c"
    by (simp_all add: siblings_sorted_iff)
  from "1.prems"(2) have sub:
    "\<forall>c\<in>set cs. (\<forall>x\<in>set (preorder c). residue_ok d (remainder c) x) \<and> path_inv c"
    by simp
  from "1.prems"(3) obtain c where c: "c \<in> set cs" "Some x \<in> set (preorder c)"
    by (auto simp: below_Node)
  with sub have "residue_ok d (remainder c) (Some x)" by blast
  with "1.prems"(4) have r: "modulo_key (Key it) d = Inr (remainder c)"
    by (simp add: residue_ok_def)
  from search_sorted_hit [OF asc c(1) refl] obtain left right where
    s: "search cs (remainder c) = Inr (True, left, right)" and ix: "index cs left = Inr c"
    by blast
  obtain y where y: "item c = Some y"
    using path_inv_item [OF "1.prems"(2) c(1)] by blast
  then have k: "item_Key (item c) = Inr (Key y)"
    by (simp add: item_Key_def)
  show ?case
  proof (cases "Key y = Key it")
    case True
    with r s ix k y show ?thesis by simp
  next
    case False
    with "1.prems"(4) have "x \<noteq> y" by auto
    with c(2) y have "Some x \<in> set (below c)"
      by (simp add: preorder_eq)
    moreover have "sibling_inv c" "path_inv c" using sib sub c(1) by auto
    ultimately obtain z where "get c it = Inr (Some z)"
      using "1.IH" [OF r s refl refl _ ix k] False "1.prems"(4) by auto
    with r s ix k False show ?thesis by simp
  qed
qed

lemma put_of_get_Some:
  "get nd it = Inr (Some x) \<Longrightarrow> put nd it len conf = Inr (Some x, nd, len, conf + 1)"
proof (induction nd it arbitrary: rule: get.induct)
  case (1 i0 d rm cs it)
  from "1.prems" show ?case
  proof (cases rule: get_cases)
    case (found r left right child y)
    then show ?thesis by (simp add: item_Key_def)
  next
    case (descend r left right child y)
    have k: "item_Key (item child) = Inr (Key y)"
      using descend(4) by (simp add: item_Key_def)
    from "1.IH" [OF descend(1) descend(2) refl refl _ descend(3) k _ descend(6)] descend(5)
    have "put child it len conf = Inr (Some x, child, len, conf + 1)" by simp
    with descend k show ?thesis
      by (simp add: index_update_same)
  next
    case (miss r left right)
    then show ?thesis by simp
  qed
qed

lemma delete_of_get_None:
  "get nd it = Inr None \<Longrightarrow> delete nd it len = Inr (None, nd, len)"
proof (induction nd it arbitrary: rule: get.induct)
  case (1 i0 d rm cs it)
  from "1.prems" show ?case
  proof (cases rule: get_cases)
    case (found r left right child y)
    then show ?thesis by simp
  next
    case (descend r left right child y)
    have k: "item_Key (item child) = Inr (Key y)"
      using descend(4) by (simp add: item_Key_def)
    from "1.IH" [OF descend(1) descend(2) refl refl _ descend(3) k _ descend(6)] descend(5)
    have "delete child it len = Inr (None, child, len)" by simp
    with descend k show ?thesis
      by (simp add: index_update_same)
  next
    case (miss r left right)
    then show ?thesis by simp
  qed
qed

lemma delete_of_get_Some:
  "get nd it = Inr (Some x) \<Longrightarrow> \<exists>n'. delete nd it len = Inr (Some x, n', len - 1)"
proof (induction nd it arbitrary: rule: get.induct)
  case (1 i0 d rm cs it)
  from "1.prems" show ?case
  proof (cases rule: get_cases)
    case (found r left right child y)
    have rng: "0 \<le> left" "left < int (length cs)"
      using found(3) by (auto simp: index_def split: if_splits)
    show ?thesis
    proof (cases "children child = []")
      case True
      with found rng show ?thesis
        by (simp add: item_Key_def children_delete_def)
    next
      case False
      with found rng show ?thesis
        by (simp add: item_Key_def detach_leaf_spec)
    qed
  next
    case (descend r left right child y)
    have k: "item_Key (item child) = Inr (Key y)"
      using descend(4) by (simp add: item_Key_def)
    from "1.IH" [OF descend(1) descend(2) refl refl _ descend(3) k _ descend(6)] descend(5)
    obtain c' where "delete child it len = Inr (Some x, c', len - 1)" by auto
    with descend k show ?thesis
      by simp
  next
    case (miss r left right)
    then show ?thesis by simp
  qed
qed

lemma put_of_get_None:
  "get nd it = Inr None \<Longrightarrow> \<exists>res n' len'. put nd it len conf = Inr (res, n', len', conf)"
proof (induction nd it arbitrary: rule: get.induct)
  case (1 i0 d rm cs it)
  from "1.prems" show ?case
  proof (cases rule: get_cases)
    case (found r left right child y)
    then show ?thesis by simp
  next
    case (descend r left right child y)
    have k: "item_Key (item child) = Inr (Key y)"
      using descend(4) by (simp add: item_Key_def)
    from "1.IH" [OF descend(1) descend(2) refl refl _ descend(3) k _ descend(6)] descend(5)
    obtain res c' len' where "put child it len conf = Inr (res, c', len', conf)" by auto
    with descend k show ?thesis
      by simp
  next
    case (miss r left right)
    from placement [OF miss(2), of "newNode (Some it) (d + 1) r"]
    obtain at_end ys zs where pl:
      "(if length cs = 0 then Inr True
        else if right = int (length cs) - 1 then
          (case index cs right of Inl e \<Rightarrow> Inl e | Inr c \<Rightarrow> Inr (sint (remainder c) \<le> sint r))
        else Inr False) = (Inr at_end :: error + bool)"
      "(if at_end then Inr (cs @ [newNode (Some it) (d + 1) r])
        else children_insert cs right (newNode (Some it) (d + 1) r))
         = Inr (ys @ newNode (Some it) (d + 1) r # zs)"
      by blast
    show ?thesis
    proof (cases "int (length primes) - 1 \<le> sint d")
      case True
      with miss show ?thesis by simp
    next
      case False
      with miss pl show ?thesis
        by (cases at_end) (simp_all add: newNode_def)
    qed
  qed
qed

subsection \<open>Well-formed trees\<close>

lemma New_tree_inv: "tree_inv New"
  by (simp add: tree_inv_def New_def stored_def below_def siblings_sorted_def primes_def)

lemma distinct_keys_add:
  assumes "mset ys = add_mset y (mset xs)"
  shows "distinct (map f ys) \<longleftrightarrow> f y \<notin> set (map f xs) \<and> distinct (map f xs)"
proof -
  have "mset (map f ys) = mset (f y # map f xs)"
    using assms by simp
  from mset_eq_imp_distinct_iff [OF this] show ?thesis by simp
qed

lemma length_add:
  assumes "mset ys = add_mset y (mset xs)"
  shows "length ys = Suc (length xs)"
proof -
  have "size (mset ys) = size (add_mset y (mset xs))" using assms by simp
  then show ?thesis by simp
qed

lemma stored_key_found:
  assumes "sibling_inv nd" "path_inv nd" "distinct (map (map_option Key) (below nd))"
    "Some x \<in> set (below nd)" "Key it = Key x"
  shows "get nd it = Inr (Some x)"
proof -
  from get_complete [OF assms(1,2,4) assms(5) [symmetric]]
  obtain y where y: "get nd it = Inr (Some y)"
    by auto
  from get_sound [OF y] have yin: "Some y \<in> set (below nd)" and ky: "Key y = Key it"
    by auto
  have "inj_on (map_option Key) (set (below nd))"
    using assms(3) by (simp add: distinct_map)
  moreover have "map_option Key (Some y) = map_option Key (Some x)"
    using ky assms(5) by simp
  ultimately have "Some y = Some x"
    using yin assms(4) by (rule inj_onD)
  with y show ?thesis by simp
qed

lemma absent_key_not_found:
  assumes "depth_inv nd" "path_inv nd" "Some (Key it) \<notin> set (map (map_option Key) (below nd))"
  shows "get nd it = Inr None"
proof -
  from get_total [OF assms(1,2)] obtain res where res: "get nd it = Inr res" by blast
  show ?thesis
  proof (cases res)
    case None
    with res show ?thesis by simp
  next
    case (Some y)
    with res get_sound [of nd it y] have "Some y \<in> set (below nd)" "Key y = Key it"
      by auto
    then have "Some (Key it) \<in> set (map (map_option Key) (below nd))"
      by force
    with assms(3) show ?thesis by simp
  qed
qed

lemma Put_tree_inv:
  assumes "tree_inv tr" "Put tr it = Inr (res, tr')"
  shows "tree_inv tr'"
proof -
  from assms(2) obtain n' len' conf' where
    p: "put (root tr) it (tree_length tr) (conflicts tr) = Inr (res, n', len', conf')"
    and tr': "tr' = tr\<lparr>root := n', tree_length := len', conflicts := conf'\<rparr>"
    by (auto simp: Put_def split: sum.splits)
  from assms(1) have inv: "depth (root tr) = 0" "sibling_inv (root tr)" "path_inv (root tr)"
    "depth_inv (root tr)" "distinct (map (map_option Key) (below (root tr)))"
    "tree_length tr = of_nat (length (below (root tr)))"
    by (simp_all add: tree_inv_def stored_def)
  have node: "depth n' = 0" "sibling_inv n'" "path_inv n'" "depth_inv n'"
    using put_frame [OF p] put_sibling_inv [OF p] put_path_inv [OF p] put_depth_inv [OF p] inv
    by simp_all
  from put_effect [OF p] consider
    (same) "n' = root tr" "len' = tree_length tr"
  | (new) "mset (below n') = add_mset (Some it) (mset (below (root tr)))"
      "len' = tree_length tr + 1"
    by auto
  then have "distinct (map (map_option Key) (below n')) \<and> len' = of_nat (length (below n'))"
  proof cases
    case same
    with inv show ?thesis by simp
  next
    case new
    have "Some (Key it) \<notin> set (map (map_option Key) (below (root tr)))"
    proof
      assume "Some (Key it) \<in> set (map (map_option Key) (below (root tr)))"
      then obtain x where "Some x \<in> set (below (root tr))" "Key it = Key x"
        by (auto simp: map_option_case split: option.splits)
      from stored_key_found [OF inv(2,3,5) this] have "get (root tr) it = Inr (Some x)" .
      from put_of_get_Some [OF this, of "tree_length tr" "conflicts tr"] p new(2)
      have "tree_length tr + 1 = tree_length tr" by simp
      then show False by simp
    qed
    then have "distinct (map (map_option Key) (below n'))"
      using inv(5) distinct_keys_add [OF new(1), of "map_option Key"] by simp
    moreover have "len' = of_nat (length (below n'))"
      using new(2) inv(6) length_add [OF new(1)] by simp
    ultimately show ?thesis by simp
  qed
  with node show ?thesis
    by (simp add: tree_inv_def stored_def tr')
qed

lemma Delete_tree_inv:
  assumes "tree_inv tr" "Delete tr it = Inr (res, tr')"
  shows "tree_inv tr'"
proof -
  from assms(2) obtain n' len' where
    p: "delete (root tr) it (tree_length tr) = Inr (res, n', len')"
    and tr': "tr' = tr\<lparr>root := n', tree_length := len'\<rparr>"
    by (auto simp: Delete_def split: sum.splits)
  from assms(1) have inv: "depth (root tr) = 0" "sibling_inv (root tr)" "path_inv (root tr)"
    "depth_inv (root tr)" "distinct (map (map_option Key) (below (root tr)))"
    "tree_length tr = of_nat (length (below (root tr)))"
    by (simp_all add: tree_inv_def stored_def)
  have node: "depth n' = 0" "sibling_inv n'" "path_inv n'" "depth_inv n'"
    using delete_frame [OF p] delete_sibling_inv [OF p] delete_path_inv [OF p]
      delete_depth_inv [OF p] inv
    by simp_all
  from delete_effect [OF p] consider
    (same) "n' = root tr" "len' = tree_length tr"
  | (gone) x where "mset (below (root tr)) = add_mset (Some x) (mset (below n'))"
      "len' = tree_length tr - 1"
    by auto
  then have "distinct (map (map_option Key) (below n')) \<and> len' = of_nat (length (below n'))"
  proof cases
    case same
    with inv show ?thesis by simp
  next
    case gone
    have "distinct (map (map_option Key) (below n'))"
      using inv(5) distinct_keys_add [OF gone(1), of "map_option Key"] by simp
    moreover have "len' = of_nat (length (below n'))"
      using gone(2) inv(6) length_add [OF gone(1)] by simp
    ultimately show ?thesis by simp
  qed
  with node show ?thesis
    by (simp add: tree_inv_def stored_def tr')
qed

lemma reachable_tree_inv: "reachable tr \<Longrightarrow> tree_inv tr"
  by (induction rule: reachable.induct) (auto intro: New_tree_inv Put_tree_inv Delete_tree_inv)

lemma Get_total: "tree_inv tr \<Longrightarrow> \<exists>res. Get tr it = Inr (res, tr)"
  using get_total [of "root tr" it] by (auto simp: tree_inv_def Get_def)

lemma Put_total: "tree_inv tr \<Longrightarrow> \<exists>res tr'. Put tr it = Inr (res, tr')"
proof -
  assume inv: "tree_inv tr"
  from get_total [of "root tr" it] inv obtain r where r: "get (root tr) it = Inr r"
    by (auto simp: tree_inv_def)
  show ?thesis
  proof (cases r)
    case None
    with r put_of_get_None [of "root tr" it "tree_length tr" "conflicts tr"]
    show ?thesis by (auto simp: Put_def)
  next
    case (Some x)
    with r put_of_get_Some [of "root tr" it x "tree_length tr" "conflicts tr"]
    show ?thesis by (auto simp: Put_def)
  qed
qed

lemma Delete_total: "tree_inv tr \<Longrightarrow> \<exists>res tr'. Delete tr it = Inr (res, tr')"
proof -
  assume inv: "tree_inv tr"
  from get_total [of "root tr" it] inv obtain r where r: "get (root tr) it = Inr r"
    by (auto simp: tree_inv_def)
  show ?thesis
  proof (cases r)
    case None
    with r delete_of_get_None [of "root tr" it "tree_length tr"]
    show ?thesis by (auto simp: Delete_def)
  next
    case (Some x)
    with r delete_of_get_Some [of "root tr" it x "tree_length tr"]
    show ?thesis by (auto simp: Delete_def)
  qed
qed

subsection \<open>The iterator\<close>

lemma Next_loop_spec:
  "iter_inv iter \<Longrightarrow>
   (pending (rev (fathers iter)) (rev (indexes iter)) (i_it iter) = [] \<and>
      (\<exists>iter'. Next_loop iter = Inr (False, iter'))) \<or>
   (\<exists>iter'. Next_loop iter = Inr (True, iter') \<and> iter_inv iter' \<and>
      pending (rev (fathers iter)) (rev (indexes iter)) (i_it iter) =
        item (n_it iter') # todo iter')"
proof (induction iter rule: Next_loop.induct)
  case (1 iter)
  show ?case
  proof (cases "fathers iter = []")
    case True
    then show ?thesis
      by (subst Next_loop.simps) simp
  next
    case False
    define l where "l = int (length (fathers iter))"
    define f where "f = last (fathers iter)"
    define fs where "fs = butlast (fathers iter)"
    have fa: "fathers iter = fs @ [f]" using False by (simp add: f_def fs_def)
    from "1.prems" have len: "length (indexes iter) = length (fathers iter)"
      and i0: "0 \<le> i_it iter" and j0: "\<forall>j \<in> set (indexes iter). 0 \<le> j"
      by (simp_all add: iter_inv_def)
    from len False have "indexes iter \<noteq> []" by auto
    define j where "j = last (indexes iter)"
    define js where "js = butlast (indexes iter)"
    have ia: "indexes iter = js @ [j]" using \<open>indexes iter \<noteq> []\<close> by (simp add: j_def js_def)
    have lens: "length js = length fs" using len fa ia by simp
    have pos: "0 < length (fathers iter)" using False by simp
    have ixf: "index (fathers iter) (l - 1) = Inr f"
      using fa by (simp add: index_def l_def nth_append)
    have ixj: "index (indexes iter) (l - 1) = Inr j"
      using fa ia lens by (simp add: index_def l_def nth_append)
    have tk: "take (nat (l - 1)) (fathers iter) = fs" "take (nat (l - 1)) (indexes iter) = js"
      using fa ia lens by (simp_all add: l_def)
    have pend: "pending (rev (fathers iter)) (rev (indexes iter)) (i_it iter) =
        concat (map preorder (drop (nat (i_it iter + 1)) (children f))) @ pending (rev fs) (rev js) j"
      by (simp add: fa ia)
    show ?thesis
    proof (cases "i_it iter < int (length (children f)) - 1")
      case True
      define nd where "nd = children f ! nat (i_it iter + 1)"
      have ixn: "index (children f) (i_it iter + 1) = Inr nd"
        using True i0 by (simp add: index_def nd_def)
      have step: "Next_loop iter = Inr (True, iter\<lparr>n_it := nd, i_it := i_it iter + 1\<rparr>)"
        using pos ixf True ixn by (subst Next_loop.simps) (simp add: l_def [symmetric])
      have "nat (i_it iter + 1) < length (children f)" using True i0 by linarith
      then have "drop (nat (i_it iter + 1)) (children f) =
          nd # drop (Suc (nat (i_it iter + 1))) (children f)"
        unfolding nd_def by (rule Cons_nth_drop_Suc [symmetric])
      moreover have "Suc (nat (i_it iter + 1)) = nat (i_it iter + 1 + 1)" using i0 by linarith
      ultimately have "pending (rev (fathers iter)) (rev (indexes iter)) (i_it iter) =
          item nd # todo (iter\<lparr>n_it := nd, i_it := i_it iter + 1\<rparr>)"
        unfolding pend by (simp add: todo_def fa ia preorder_eq [of nd])
      moreover have "iter_inv (iter\<lparr>n_it := nd, i_it := i_it iter + 1\<rparr>)"
        using "1.prems" by (simp add: iter_inv_def)
      ultimately show ?thesis using step by auto
    next
      case last: False
      define iter2 where "iter2 = iter\<lparr>fathers := take (nat (l - 1)) (fathers iter),
          indexes := take (nat (l - 1)) (indexes iter), i_it := j\<rparr>"
      have step: "Next_loop iter = Next_loop iter2"
        using pos ixf last ixj
        by (subst Next_loop.simps) (simp add: l_def [symmetric] iter2_def)
      have sel2: "fathers iter2 = fs" "indexes iter2 = js" "i_it iter2 = j"
        by (simp_all add: iter2_def tk)
      have "0 \<le> j" "\<forall>x \<in> set js. 0 \<le> x"
        using j0 ia by simp_all
      then have inv2: "iter_inv iter2"
        using lens by (simp add: iter_inv_def sel2)
      have "drop (nat (i_it iter + 1)) (children f) = []"
        using last i0 by simp
      then have pend2: "pending (rev (fathers iter)) (rev (indexes iter)) (i_it iter) =
          pending (rev (fathers iter2)) (rev (indexes iter2)) (i_it iter2)"
        unfolding pend by (simp add: sel2)
      from "1.IH" [OF pos l_def ixf last ixj inv2 [unfolded iter2_def]]
      show ?thesis
        unfolding step pend2 iter2_def [symmetric] .
    qed
  qed
qed

lemma Next_spec:
  assumes "iter_inv iter"
  shows "(todo iter = [] \<and> (\<exists>iter'. Next iter = Inr (False, iter'))) \<or>
   (\<exists>iter'. Next iter = Inr (True, iter') \<and> iter_inv iter' \<and>
      todo iter = iter_Item iter' # todo iter')"
proof (cases "children (n_it iter)")
  case Nil
  then have "todo iter = pending (rev (fathers iter)) (rev (indexes iter)) (i_it iter)"
    "Next iter = Next_loop iter"
    by (simp_all add: todo_def below_def Next_def)
  with Next_loop_spec [OF assms] show ?thesis
    by (auto simp: iter_Item_def)
next
  case (Cons c cs)
  define iter' where "iter' = iter\<lparr>fathers := fathers iter @ [n_it iter],
      indexes := indexes iter @ [i_it iter], n_it := c, i_it := 0\<rparr>"
  have step: "Next iter = Inr (True, iter')"
    using Cons by (simp add: Next_def index_def iter'_def)
  have "iter_inv iter'"
    using assms by (auto simp: iter_inv_def iter'_def)
  moreover have "todo iter = iter_Item iter' # todo iter'"
    using Cons by (simp add: todo_def iter'_def iter_Item_def below_def preorder_eq [of c])
  ultimately show ?thesis using step by auto
qed

lemma iterate_spec:
  "iter_inv iter \<Longrightarrow> length (todo iter) < fuel \<Longrightarrow> iterate fuel iter = Inr (Some (todo iter))"
proof (induction fuel arbitrary: iter)
  case 0
  then show ?case by simp
next
  case (Suc fuel)
  from Next_spec [OF Suc.prems(1)] show ?case
  proof (elim disjE conjE exE)
    fix iter'
    assume "todo iter = []" "Next iter = Inr (False, iter')"
    then show ?thesis by simp
  next
    fix iter'
    assume n: "Next iter = Inr (True, iter')" and inv: "iter_inv iter'"
      and td: "todo iter = iter_Item iter' # todo iter'"
    from td Suc.prems(2) have "length (todo iter') < fuel" by simp
    from Suc.IH [OF inv this] n td show ?thesis by simp
  qed
qed

lemma iterate_NewIterator:
  "length (stored tr) < fuel \<Longrightarrow> iterate fuel (NewIterator tr) = Inr (Some (stored tr))"
proof -
  have "iter_inv (NewIterator tr)" by (simp add: iter_inv_def NewIterator_def)
  moreover have "todo (NewIterator tr) = stored tr"
    by (simp add: todo_def NewIterator_def stored_def)
  ultimately show "length (stored tr) < fuel \<Longrightarrow> ?thesis"
    using iterate_spec [of "NewIterator tr" fuel] by simp
qed

subsection \<open>Sample trees and further facts\<close>

lemma first_leaf_is_leaf: "children (first_leaf nd) = []"
  by (induction nd rule: first_leaf.induct) simp_all

lemma reachable_Put_all:
  "reachable tr \<Longrightarrow> Put_all tr its = Inr (rs, tr') \<Longrightarrow> reachable tr'"
proof (induction its arbitrary: tr rs)
  case Nil
  then show ?case by simp
next
  case (Cons it its)
  from Cons.prems(2) obtain r tr1 rs1 where
    "Put tr it = Inr (r, tr1)" "Put_all tr1 its = Inr (rs1, tr')"
    by (auto split: sum.splits)
  with Cons.IH [of tr1 rs1] Cons.prems(1) show ?case
    by (blast intro: reachable_Put)
qed

lemma Put_all_0_9:
  "Put_all New (map Uint32 [0, 1, 2, 3, 4, 5, 6, 7, 8, 9]) =
     Inr (map (Some \<circ> Uint32) [0, 1, 2, 3, 4, 5, 6, 7, 8, 9], tree_0_9)"
  by code_simp

lemma reachable_tree_0_9: "reachable tree_0_9"
  using reachable_Put_all [OF reachable_New Put_all_0_9] .

lemma Delete_tree_0_9: "Delete tree_0_9 (Uint32 0) = Inr (Some (Uint32 0), tree_0_9_del_0)"
  by code_simp

lemma Put_tree_0_9: "Put tree_0_9 (Uint32 10) = Inr (Some (Uint32 10), tree_0_9_put_10)"
  by code_simp

lemma residue_path_get:
  "residue_path nd k = Inr p \<Longrightarrow> \<forall>c \<in> set p. no_match k c \<Longrightarrow> k = Key it \<Longrightarrow>
   get nd it = Inr None"
proof (induction nd k arbitrary: p rule: residue_path.induct)
  case (1 i0 d rm cs k)
  from "1.prems"(1) obtain r where r: "modulo_key k d = Inr r"
    by (auto split: sum.splits)
  with "1.prems"(1) obtain ok left right where s: "search cs r = Inr (ok, left, right)"
    by (auto split: sum.splits)
  show ?case
  proof (cases ok)
    case False
    with r s "1.prems"(3) show ?thesis by simp
  next
    case True
    with "1.prems"(1) r s obtain child where c: "index cs left = Inr child"
      by (auto split: sum.splits)
    with "1.prems"(1) r s True obtain p' where
      p': "residue_path child k = Inr p'" "p = child # p'"
      by (auto split: sum.splits)
    from "1.prems"(2) p'(2) have nm: "no_match k child" "\<forall>c \<in> set p'. no_match k c"
      by simp_all
    from nm(1) obtain x where x: "item child = Some x" "Key x \<noteq> k"
      by (auto simp: no_match_def split: option.splits)
    have "get child it = Inr None"
      using "1.IH" [OF r s refl refl True c p'(1) nm(2) "1.prems"(3)] .
    with r s True c x "1.prems"(3) show ?thesis
      by (simp add: item_Key_def)
  qed
qed

lemma stored_count:
  assumes "tree_inv tr"
  shows "unat (Len tr) = length (stored tr)"
proof -
  from assms have d: "distinct (map (map_option Key) (stored tr))"
    and l: "tree_length tr = of_nat (length (stored tr))"
    by (simp_all add: tree_inv_def)
  have "length (stored tr) = card (set (map (map_option Key) (stored tr)))"
    using distinct_card [OF d] by simp
  also have "\<dots> \<le> card (UNIV :: 32 word option set)"
    by (rule card_mono) simp_all
  also have "\<dots> = Suc (2 ^ 32)"
    by (simp add: card_UNIV_option card_word)
  finally have "length (stored tr) < 2 ^ 64" by simp
  then show ?thesis
    by (simp add: Len_def l unat_of_nat)
qed

lemma stored_items:
  assumes "tree_inv tr"
  shows "distinct (stored tr) \<and> None \<notin> set (stored tr)"
proof -
  from assms have d: "distinct (map (map_option Key) (stored tr))"
    and p: "path_inv (root tr)"
    by (simp_all add: tree_inv_def)
  have "x \<noteq> None" if "x \<in> set (below (root tr))" for x
    using that p by (cases "root tr") (auto simp: below_def residue_ok_def split: option.splits)
  with d show ?thesis
    by (auto simp: distinct_map stored_def)
qed

subsection \<open>\<^verbatim>\<open>get\<close> on the memory\<close>

lemma search_loop_m_frame:
  "search_loop_m m s r left right = Inr (x, m') \<Longrightarrow> m' = m"
proof (induction m s r left right rule: search_loop_m.induct)
  case (1 m s r left right)
  show ?case
  proof (cases "left < right")
    case False
    with "1.prems" show ?thesis by simp
  next
    case True
    define mid where "mid = (left + right) div 2"
    from "1.prems" True obtain father where f: "load m s = Inr father"
      by (subst (asm) search_loop_m.simps) (auto simp: Let_def split: sum.splits)
    from "1.prems" True f obtain p where p: "index (cell_children father) mid = Inr p"
      by (subst (asm) search_loop_m.simps) (auto simp: mid_def Let_def split: sum.splits)
    from "1.prems" True f p obtain child where c: "load m p = Inr child"
      by (subst (asm) search_loop_m.simps) (auto simp: mid_def Let_def split: sum.splits)
    show ?thesis
    proof (cases "sint (cell_remainder child) < sint r")
      case lt: True
      with "1.prems" True f p c have "search_loop_m m s r (mid + 1) right = Inr (x, m')"
        by (subst (asm) search_loop_m.simps) (simp add: mid_def Let_def)
      with "1.IH"(1) [OF True mid_def f p c lt] show ?thesis by simp
    next
      case ge: False
      with "1.prems" True f p c have "search_loop_m m s r left mid = Inr (x, m')"
        by (subst (asm) search_loop_m.simps) (simp add: mid_def Let_def)
      with "1.IH"(2) [OF True mid_def f p c ge] show ?thesis by simp
    qed
  qed
qed

lemma search_m_frame: "search_m m s r = Inr (x, m') \<Longrightarrow> m' = m"
  unfolding search_m_def
  by (auto simp del: search_loop_m.simps split: sum.splits prod.splits if_splits
      dest!: search_loop_m_frame)

lemma get_m_frame: "get_m fuel m p it = Inr (Some (res, m')) \<Longrightarrow> m' = m"
proof (induction fuel arbitrary: m p)
  case 0
  then show ?case by simp
next
  case (Suc fuel)
  from Suc.prems show ?case
    by (auto split: sum.splits if_splits dest!: search_m_frame dest: Suc.IH)
qed

lemma repr_cell:
  assumes "repr m p nd"
  shows "\<exists>c. cells m p = Some c \<and> cell_item c = item nd \<and> cell_depth c = depth nd \<and>
    cell_remainder c = remainder nd \<and> length (cell_children c) = length (children nd) \<and>
    (\<forall>j < length (children nd). repr m (cell_children c ! j) (children nd ! j))"
proof (cases nd)
  case (Node i0 d rm cs)
  with assms obtain c where c: "cells m p = Some c" "cell_item c = i0" "cell_depth c = d"
    "cell_remainder c = rm" "length (cell_children c) = length cs"
    "list_all (\<lambda>(q, ch). repr m q ch) (zip (cell_children c) cs)"
    by (auto split: option.splits)
  have "repr m (cell_children c ! j) (cs ! j)" if "j < length cs" for j
  proof -
    from that c(5) have "(cell_children c ! j, cs ! j) \<in> set (zip (cell_children c) cs)"
      by (auto simp: set_zip)
    with c(6) show ?thesis by (auto simp: list_all_iff)
  qed
  with c Node show ?thesis by simp
qed

lemma repr_load:
  assumes "repr m p nd"
  shows "\<exists>c. load m p = Inr c \<and> cell_item c = item nd \<and> cell_depth c = depth nd \<and>
    cell_remainder c = remainder nd \<and> length (cell_children c) = length (children nd)"
  using repr_cell [OF assms] by (auto simp: load_def)

lemma repr_child:
  assumes "repr m p nd" "index (children nd) j = Inr ch" "load m p = Inr c"
  shows "\<exists>q. index (cell_children c) j = Inr q \<and> repr m q ch"
proof -
  from repr_cell [OF assms(1)] assms(3) have c:
    "length (cell_children c) = length (children nd)"
    "\<forall>j < length (children nd). repr m (cell_children c ! j) (children nd ! j)"
    by (auto simp: load_def)
  from assms(2) have j: "0 \<le> j" "j < int (length (children nd))" "ch = children nd ! nat j"
    by (auto simp: index_def split: if_splits)
  then have "nat j < length (children nd)" by linarith
  with c j show ?thesis
    by (simp add: index_def)
qed

lemma search_loop_m_repr:
  "repr m p nd \<Longrightarrow> cs = children nd \<Longrightarrow> search_loop cs r left right = Inr y \<Longrightarrow>
   search_loop_m m p r left right = Inr (y, m)"
proof (induction cs r left right rule: search_loop.induct)
  case (1 s r left right)
  show ?case
  proof (cases "left < right")
    case False
    with "1.prems" show ?thesis
      by (subst search_loop_m.simps) simp
  next
    case True
    define mid where "mid = (left + right) div 2"
    from "1.prems"(3) True obtain child where ix: "index s mid = Inr child"
      by (subst (asm) search_loop.simps) (auto simp: mid_def Let_def split: sum.splits)
    from repr_load [OF "1.prems"(1)] obtain c where c0: "load m p = Inr c"
      by blast
    from repr_child [OF "1.prems"(1) ix [unfolded "1.prems"(2)] c0] obtain q where
      q: "index (cell_children c) mid = Inr q" "repr m q child"
      by blast
    note c = c0 q
    from repr_load [OF q(2)] obtain cc where
      cc: "load m q = Inr cc" "cell_remainder cc = remainder child"
      by blast
    show ?thesis
    proof (cases "sint (remainder child) < sint r")
      case lt: True
      with "1.prems"(3) True ix have "search_loop s r (mid + 1) right = Inr y"
        by (subst (asm) search_loop.simps) (simp add: mid_def Let_def)
      from "1.IH"(1) [OF True mid_def ix lt "1.prems"(1,2) this]
      show ?thesis
        using True c cc lt by (subst search_loop_m.simps) (simp add: mid_def Let_def)
    next
      case ge: False
      with "1.prems"(3) True ix have "search_loop s r left mid = Inr y"
        by (subst (asm) search_loop.simps) (simp add: mid_def Let_def)
      from "1.IH"(2) [OF True mid_def ix ge "1.prems"(1,2) this]
      show ?thesis
        using True c cc ge by (subst search_loop_m.simps) (simp add: mid_def Let_def)
    qed
  qed
qed

lemma search_m_repr:
  assumes "repr m p nd" "search (children nd) r = Inr y"
  shows "search_m m p r = Inr (y, m)"
proof -
  from repr_load [OF assms(1)] obtain c where c: "load m p = Inr c"
    "length (cell_children c) = length (children nd)"
    by blast
  from assms(2) obtain left right where
    l: "search_loop (children nd) r 0 (int (length (children nd)) - 1) = Inr (left, right)"
    by (auto simp: search_def split: sum.splits)
  note lm = search_loop_m_repr [OF assms(1) refl l]
  show ?thesis
  proof (cases "left = right")
    case False
    with assms(2) l c lm show ?thesis
      by (simp add: search_def search_m_def del: search_loop.simps search_loop_m.simps)
  next
    case True
    with assms(2) l obtain child where ix: "index (children nd) left = Inr child"
      by (auto simp: search_def simp del: search_loop.simps split: sum.splits)
    from repr_child [OF assms(1) ix c(1)] obtain q where
      q: "index (cell_children c) left = Inr q" "repr m q child"
      by blast
    from repr_load [OF q(2)] obtain cc where
      cc: "load m q = Inr cc" "cell_remainder cc = remainder child"
      by blast
    from assms(2) l c lm True ix q cc show ?thesis
      by (simp add: search_def search_m_def del: search_loop.simps search_loop_m.simps)
  qed
qed

lemma subtree_at_snoc:
  "subtree_at nd path = Some sub \<Longrightarrow> j < length (children sub) \<Longrightarrow>
   subtree_at nd (path @ [j]) = Some (children sub ! j)"
  by (induction path arbitrary: nd) (auto split: if_splits)

lemma repr_memory_of:
  "subtree_at (root tr) path = Some nd \<Longrightarrow> repr (memory_of tr) (to_nat path) nd"
proof (induction nd arbitrary: path)
  case (Node i0 d rm cs)
  have "repr (memory_of tr) (to_nat (path @ [j])) (cs ! j)" if "j < length cs" for j
  proof -
    have "subtree_at (root tr) (path @ [j]) = Some (cs ! j)"
      using subtree_at_snoc [OF Node.prems, of j] that by simp
    moreover have "cs ! j \<in> set cs" using that by simp
    ultimately show ?thesis by (rule Node.IH [rotated])
  qed
  then have "list_all (\<lambda>(q, ch). repr (memory_of tr) q ch)
      (zip (map (\<lambda>j. to_nat (path @ [j])) [0..<length cs]) cs)"
    by (auto simp: list_all_iff set_zip)
  with Node.prems show ?case
    by (simp add: memory_of_def)
qed

lemma repr_tree_memory_of: "repr_tree (memory_of tr) tr"
  using repr_memory_of [of tr "[]" "root tr"]
  by (simp add: repr_tree_def) (simp add: memory_of_def)

lemma height_child: "c \<in> set cs \<Longrightarrow> height c < height (Node i0 d rm cs)"
  by (induction cs) auto

lemma get_m_repr:
  "repr m p nd \<Longrightarrow> get nd it = Inr res \<Longrightarrow> height nd \<le> fuel \<Longrightarrow>
   get_m fuel m p it = Inr (Some (res, m))"
proof (induction nd it arbitrary: p fuel rule: get.induct)
  case (1 i0 d rm cs it)
  from "1.prems"(3) obtain fuel' where fuel: "fuel = Suc fuel'"
    by (cases fuel) auto
  from repr_load [OF "1.prems"(1)] obtain c where c: "load m p = Inr c" "cell_depth c = d"
    by auto
  from "1.prems"(2) show ?case
  proof (cases rule: get_cases)
    case (found r left right child x)
    have s: "search_m m p r = Inr ((True, left, right), m)"
      using search_m_repr [OF "1.prems"(1)] found(2) by simp
    from repr_child [OF "1.prems"(1) _ c(1), of left child] found(3) obtain q where
      q: "index (cell_children c) left = Inr q" "repr m q child"
      by auto
    from repr_load [OF q(2)] obtain cc where cc: "load m q = Inr cc" "cell_item cc = item child"
      by blast
    from found c s q cc show ?thesis
      by (simp add: fuel item_Key_def)
  next
    case (descend r left right child x)
    have s: "search_m m p r = Inr ((True, left, right), m)"
      using search_m_repr [OF "1.prems"(1)] descend(2) by simp
    from repr_child [OF "1.prems"(1) _ c(1), of left child] descend(3) obtain q where
      q: "index (cell_children c) left = Inr q" "repr m q child"
      by auto
    from repr_load [OF q(2)] obtain cc where cc: "load m q = Inr cc" "cell_item cc = item child"
      by blast
    have k: "item_Key (item child) = Inr (Key x)"
      using descend(4) by (simp add: item_Key_def)
    have "height child < height (Node i0 d rm cs)"
      using index_in_set [OF descend(3)] by (rule height_child)
    with "1.prems"(3) fuel have h: "height child \<le> fuel'" by simp
    from "1.IH" [OF descend(1) descend(2) refl refl _ descend(3) k _ q(2) descend(6) h] descend(5)
    have "get_m fuel' m q it = Inr (Some (res, m))" by simp
    with descend c s q cc k show ?thesis
      by (simp add: fuel)
  next
    case (miss r left right)
    have s: "search_m m p r = Inr ((False, left, right), m)"
      using search_m_repr [OF "1.prems"(1)] miss(2) by simp
    from miss c s show ?thesis
      by (simp add: fuel)
  qed
qed

lemma height_bound:
  "depth_inv nd \<Longrightarrow> int (height nd) + sint (depth nd) \<le> 10"
proof (induction nd)
  case (Node i0 d rm cs)
  from Node.prems have d: "0 \<le> sint d" "sint d \<le> 9"
    and sub: "\<forall>c\<in>set cs. depth c = d + 1 \<and> depth_inv c"
    by (simp_all add: primes_def)
  show ?case
  proof (cases "cs = []")
    case True
    with d show ?thesis by simp
  next
    case False
    then obtain c0 where c0: "c0 \<in> set cs" by (cases cs) auto
    with sub have "depth_inv c0" "depth c0 = d + 1" by auto
    then have "sint (d + 1) \<le> 9" "0 \<le> sint (d + 1)"
      by (cases c0; simp add: primes_def)+
    have "sint d \<noteq> 9"
    proof
      assume "sint d = 9"
      then have "sint d = sint (9 :: 8 word)" by simp
      then have "d = 9" by (simp only: sint_eq)
      with \<open>sint (d + 1) \<le> 9\<close> show False by simp
    qed
    with d have lt: "sint d < 9" by simp
    then have s: "sint (d + 1) = sint d + 1" using d by (intro sint_succ) auto
    have each: "int (height c) \<le> 9 - sint d" if "c \<in> set cs" for c
    proof -
      from that sub have "depth_inv c" "depth c = d + 1" by auto
      with Node.IH [OF that] s show ?thesis by simp
    qed
    have "int (foldr (\<lambda>c h. max (height c) h) xs 0) \<le> 9 - sint d" if "set xs \<subseteq> set cs" for xs
      using that lt each by (induction xs) (auto simp: max_def)
    from this [of cs] show ?thesis by simp
  qed
qed

lemma reachable_height: "reachable tr \<Longrightarrow> height (root tr) \<le> 10"
proof -
  assume "reachable tr"
  then have "depth_inv (root tr)" "depth (root tr) = 0"
    using reachable_tree_inv by (auto simp: tree_inv_def)
  with height_bound [of "root tr"] show ?thesis by simp
qed

section \<open>The claims\<close>

subsection \<open>Depth overflow\<close>

lemma Put_all_overflow_keys:
  "Put_all New (map Uint32 overflow_keys) = Inr (map (Some \<circ> Uint32) overflow_keys, overflow_tree)"
  by code_simp

lemma Put_overflow_tree: "Put overflow_tree (Uint32 446185740) = Inr (None, overflow_tree)"
  by code_simp

lemma Get_overflow_tree: "Get overflow_tree (Uint32 446185740) = Inr (None, overflow_tree)"
  by code_simp

lemma distinct_overflow_keys: "distinct (overflow_keys @ [446185740])"
  by (simp add: overflow_keys_def)

lemma Put_all_append:
  "Put_all tr (xs @ ys) =
     (case Put_all tr xs of
        Inl e \<Rightarrow> Inl e
      | Inr (rs, tr') \<Rightarrow>
          (case Put_all tr' ys of
             Inl e \<Rightarrow> Inl e
           | Inr (rs', tr'') \<Rightarrow> Inr (rs @ rs', tr'')))"
  by (induction xs arbitrary: tr) (auto split: sum.splits)

text \<open>
  C1. Ten pairwise distinct keys are put into a fresh tree, one after the other. The tree
  then has length 9, not 10, and \<open>Get\<close> on the tenth key finds nothing: the tenth key
  agrees with the ninth modulo the nine primes 2 to 23, the only ones a node is ever
  placed by, although the two differ modulo 29.
\<close>

theorem put_distinct_keys_short_length:
  "distinct (overflow_keys @ [446185740]) \<and>
   length (overflow_keys @ [446185740]) = 10 \<and>
   Put_all New (map Uint32 (overflow_keys @ [446185740])) =
     Inr (map (Some \<circ> Uint32) overflow_keys @ [None], overflow_tree) \<and>
   Len overflow_tree = 9 \<and>
   Get overflow_tree (Uint32 446185740) = Inr (None, overflow_tree)"
proof -
  have "Put_all New (map Uint32 (overflow_keys @ [446185740])) =
     Inr (map (Some \<circ> Uint32) overflow_keys @ [None], overflow_tree)"
    by (simp add: Put_all_append Put_all_overflow_keys Put_overflow_tree)
  moreover have "length (overflow_keys @ [446185740]) = 10"
    by (simp add: overflow_keys_def)
  moreover have "Len overflow_tree = 9"
    by (simp add: Len_def overflow_tree_def)
  ultimately show ?thesis
    using distinct_overflow_keys Get_overflow_tree by blast
qed

text \<open>
  C2. After the nine keys of \<open>overflow_keys\<close>, all stored, \<open>Put\<close> of a tenth key
  distinct from all of them returns nil and leaves the tree as it is: the branch
  \<^verbatim>\<open>return nil // depth overflows\<close> is taken at the node of depth 9.
\<close>

theorem put_depth_overflow_reached:
  "distinct (overflow_keys @ [446185740]) \<and>
   Put_all New (map Uint32 overflow_keys) =
     Inr (map (Some \<circ> Uint32) overflow_keys, overflow_tree) \<and>
   Put overflow_tree (Uint32 446185740) = Inr (None, overflow_tree)"
  using distinct_overflow_keys Put_all_overflow_keys Put_overflow_tree by blast

subsection \<open>The operations on well-formed trees\<close>

text \<open>
  C3. \<^verbatim>\<open>delete\<close> is called on a node, the search among its children finds the child
  with the key of the item, and that child has children. Then the call returns the item
  of that child (not the leaf's), decrements the length, and leaves the node with one
  slot changed: the slot of the child holds a node with the child's depth and remainder,
  the item of \<open>first_leaf child\<close> (the node without children reached by following the
  first child again and again) and the children of the child with that leaf taken out of
  its father's children (\<open>without_first_leaf\<close>). The loop of the source, \<open>detach_leaf\<close>,
  computes exactly that leaf and that remainder of the subtree. A call of \<^verbatim>\<open>delete\<close>
  higher up installs the node this call returns in the slot it descended through and
  hands the returned item on.
\<close>

theorem delete_promotes_first_leaf:
  assumes "modulo_key (Key it) d = Inr r"
    and "search cs r = Inr (True, left, right)"
    and "index cs left = Inr child"
    and "item child = Some x"
    and "Key x = Key it"
    and "children child \<noteq> []"
  shows "delete (Node i0 d rm cs) it len =
           Inr (Some x,
                Node i0 d rm
                  (cs[nat left :=
                        Node (item (first_leaf child)) (depth child) (remainder child)
                          (children (without_first_leaf child))]),
                len - 1) \<and>
         children (first_leaf child) = [] \<and>
         detach_leaf child = Inr (item (first_leaf child), without_first_leaf child)"
proof -
  have rng: "0 \<le> left" "left < int (length cs)"
    using assms(3) by (auto simp: index_def split: if_splits)
  have "detach_leaf child = Inr (item (first_leaf child), without_first_leaf child)"
    using assms(6) by (rule detach_leaf_spec)
  then show ?thesis
    using assms rng by (simp add: item_Key_def first_leaf_is_leaf)
qed

theorem delete_promotes_first_leaf_witness:
  "modulo_key (Key (Uint32 0)) 0 = Inr 0 \<and>
   search [node_0, node_1] 0 = Inr (True, 0, 0) \<and>
   index [node_0, node_1] 0 = Inr node_0 \<and>
   item node_0 = Some (Uint32 0) \<and>
   children node_0 \<noteq> [] \<and>
   first_leaf node_0 = Node (Some (Item 6 ())) 2 0 [] \<and>
   delete (root tree_0_9) (Uint32 0) 10 = Inr (Some (Uint32 0), root tree_0_9_del_0, 9)"
proof -
  have h1: "modulo_key (Key (Uint32 0)) 0 = Inr 0" by code_simp
  have h2: "search [node_0, node_1] 0 = Inr (True, 0, 0)" by code_simp
  have h3: "index [node_0, node_1] 0 = Inr node_0" by code_simp
  have h4: "item node_0 = Some (Uint32 0)" by code_simp
  have h5: "Key (Uint32 0) = Key (Uint32 0)" by simp
  have h6: "children node_0 \<noteq> []" by code_simp
  have fl: "first_leaf node_0 = Node (Some (Item 6 ())) 2 0 []" by code_simp
  have wl: "without_first_leaf node_0 =
      Node (Some (Item 0 ())) 1 0
       [node_4, Node (Some (Item 2 ())) 2 2 [Node (Some (Item 8 ())) 3 3 []]]"
    by code_simp
  have dr: "depth node_0 = 1" "remainder node_0 = 0" by code_simp+
  from delete_promotes_first_leaf [OF h1 h2 h3 h4 h5 h6, of None 0 10]
  have "delete (root tree_0_9) (Uint32 0) 10 = Inr (Some (Uint32 0), root tree_0_9_del_0, 9)"
    by (simp add: tree_0_9_def tree_0_9_del_0_def fl wl dr)
  with h1 h2 h3 h4 h6 fl show ?thesis by blast
qed

text \<open>
  C4. Path consistency (\<open>path_inv\<close>: every item stored in the subtree of a child has,
  modulo the prime of the father's depth, the remainder of that child, at every node)
  holds in the fresh tree, and \<open>Put\<close> and \<open>Delete\<close> take a path-consistent tree to a
  path-consistent tree, whatever they do, leaf promotion included. So it holds in every
  tree built from \<open>New\<close> by \<open>Put\<close> and \<open>Delete\<close>; on such a tree \<open>Put\<close> and
  \<open>Delete\<close> do return (they do not panic), and \<open>Get\<close> with the key of a stored item
  returns that item.
\<close>

theorem path_consistency_preserved:
  "path_inv (root (New :: 'v htree)) \<and>
   (path_inv (root tr) \<longrightarrow> Put tr it1 = Inr (res1, tr1) \<longrightarrow> path_inv (root tr1)) \<and>
   (path_inv (root tr) \<longrightarrow> Delete tr it2 = Inr (res2, tr2) \<longrightarrow> path_inv (root tr2)) \<and>
   (reachable tr \<longrightarrow>
      path_inv (root tr) \<and>
      (\<exists>res tr'. Put tr it1 = Inr (res, tr')) \<and>
      (\<exists>res tr'. Delete tr it2 = Inr (res, tr')) \<and>
      (Some x \<in> set (stored tr) \<longrightarrow> Key q = Key x \<longrightarrow> Get tr q = Inr (Some x, tr)))"
proof (intro conjI impI)
  show "path_inv (root (New :: 'v htree))"
    by (simp add: New_def)
next
  assume "reachable tr"
  then show "\<exists>res tr'. Put tr it1 = Inr (res, tr')"
    by (intro Put_total reachable_tree_inv)
next
  assume "reachable tr"
  then show "\<exists>res tr'. Delete tr it2 = Inr (res, tr')"
    by (intro Delete_total reachable_tree_inv)
next
  assume "path_inv (root tr)" "Put tr it1 = Inr (res1, tr1)"
  then show "path_inv (root tr1)"
    by (auto simp: Put_def split: sum.splits dest: put_path_inv)
next
  assume "path_inv (root tr)" "Delete tr it2 = Inr (res2, tr2)"
  then show "path_inv (root tr2)"
    by (auto simp: Delete_def split: sum.splits dest: delete_path_inv)
next
  assume "reachable tr"
  then show "path_inv (root tr)"
    using reachable_tree_inv by (auto simp: tree_inv_def)
next
  assume r: "reachable tr" and x: "Some x \<in> set (stored tr)" and k: "Key q = Key x"
  from reachable_tree_inv [OF r] have "sibling_inv (root tr)" "path_inv (root tr)"
    "distinct (map (map_option Key) (below (root tr)))"
    by (simp_all add: tree_inv_def stored_def)
  from stored_key_found [OF this x [unfolded stored_def] k]
  show "Get tr q = Inr (Some x, tr)"
    by (simp add: Get_def)
qed

theorem path_consistency_preserved_witness:
  "path_inv (root tree_0_9) \<and>
   Put tree_0_9 (Uint32 10) = Inr (Some (Uint32 10), tree_0_9_put_10) \<and>
   path_inv (root tree_0_9_put_10) \<and>
   Delete tree_0_9 (Uint32 0) = Inr (Some (Uint32 0), tree_0_9_del_0) \<and>
   path_inv (root tree_0_9_del_0) \<and>
   reachable tree_0_9 \<and>
   Some (Uint32 9) \<in> set (stored tree_0_9) \<and>
   Get tree_0_9 (Uint32 9) = Inr (Some (Uint32 9), tree_0_9)"
proof -
  have h1: "path_inv (root tree_0_9)" by code_simp
  have h2: "Some (Uint32 9) \<in> set (stored tree_0_9)" by code_simp
  have h3: "Key (Uint32 9) = Key (Uint32 9)" by simp
  note th = path_consistency_preserved [of tree_0_9 "Uint32 10" "Some (Uint32 10)"
      tree_0_9_put_10 "Uint32 0" "Some (Uint32 0)" tree_0_9_del_0 "Uint32 9" "Uint32 9"]
  from th h1 Put_tree_0_9 Delete_tree_0_9 reachable_tree_0_9 h2 h3
  show ?thesis by blast
qed

text \<open>
  C5. In a tree built from \<open>New\<close> by \<open>Put\<close> and \<open>Delete\<close> that stores an item \<open>x\<close>,
  \<open>Put\<close> of any item with the key of \<open>x\<close> returns \<open>x\<close> itself, adds one to the
  conflicts, and leaves the length and the nodes as they are.
\<close>

theorem put_present_key:
  assumes "reachable tr" and "Some x \<in> set (stored tr)" and "Key it = Key x"
  shows "\<exists>tr'. Put tr it = Inr (Some x, tr') \<and> Conflicts tr' = Conflicts tr + 1 \<and>
           Len tr' = Len tr \<and> root tr' = root tr"
proof -
  from reachable_tree_inv [OF assms(1)] have "sibling_inv (root tr)" "path_inv (root tr)"
    "distinct (map (map_option Key) (below (root tr)))"
    by (simp_all add: tree_inv_def stored_def)
  from stored_key_found [OF this assms(2) [unfolded stored_def] assms(3)]
  have "get (root tr) it = Inr (Some x)" .
  from put_of_get_Some [OF this, of "tree_length tr" "conflicts tr"]
  show ?thesis
    by (simp add: Put_def Conflicts_def Len_def)
qed

theorem put_present_key_witness:
  "reachable tree_123 \<and>
   Some (Item 123 ''data1'') \<in> set (stored tree_123) \<and>
   Key (Item 123 ''data2'') = Key (Item 123 ''data1'') \<and>
   (\<exists>tr'. Put tree_123 (Item 123 ''data2'') = Inr (Some (Item 123 ''data1''), tr') \<and>
      Conflicts tr' = Conflicts tree_123 + 1 \<and> Len tr' = Len tree_123 \<and>
      root tr' = root tree_123)"
proof -
  have "Put New (Item 123 ''data1'') = Inr (Some (Item 123 ''data1''), tree_123)"
    by code_simp
  with reachable_New have h1: "reachable tree_123" by (rule reachable_Put)
  have h2: "Some (Item 123 ''data1'') \<in> set (stored tree_123)" by code_simp
  have h3: "Key (Item 123 ''data2'') = Key (Item 123 ''data1'')" by simp
  from put_present_key [OF h1 h2 h3] h1 h2 h3 show ?thesis by blast
qed

text \<open>
  C6. In a tree built from \<open>New\<close> by \<open>Put\<close> and \<open>Delete\<close> that stores an item \<open>x\<close>,
  \<open>Delete\<close> of an item with the key of \<open>x\<close> returns \<open>x\<close>; the length is one less
  and so is the number of stored items; \<open>Get\<close> with that key on the tree left by the
  deletion returns nil.
\<close>

theorem delete_present_key:
  assumes "reachable tr" and "Some x \<in> set (stored tr)" and "Key it = Key x"
  shows "\<exists>tr'. Delete tr it = Inr (Some x, tr') \<and> Len tr' = Len tr - 1 \<and>
           length (stored tr) = Suc (length (stored tr')) \<and>
           Get tr' it = Inr (None, tr')"
proof -
  have inv: "tree_inv tr" using assms(1) by (rule reachable_tree_inv)
  then have "sibling_inv (root tr)" "path_inv (root tr)"
    "distinct (map (map_option Key) (below (root tr)))"
    by (simp_all add: tree_inv_def stored_def)
  from stored_key_found [OF this assms(2) [unfolded stored_def] assms(3)]
  have "get (root tr) it = Inr (Some x)" .
  from delete_of_get_Some [OF this, of "tree_length tr"]
  obtain n' where d: "delete (root tr) it (tree_length tr) = Inr (Some x, n', tree_length tr - 1)"
    by blast
  define tr' where "tr' = tr\<lparr>root := n', tree_length := tree_length tr - 1\<rparr>"
  have D: "Delete tr it = Inr (Some x, tr')"
    using d by (simp add: Delete_def tr'_def)
  have inv': "tree_inv tr'" using inv D by (rule Delete_tree_inv)
  from delete_effect [OF d] obtain y where
    y: "Some x = Some y" "mset (below (root tr)) = add_mset (Some y) (mset (below n'))"
    by auto
  have ms: "mset (stored tr) = add_mset (Some x) (mset (stored tr'))"
    using y by (simp add: stored_def tr'_def)
  have "distinct (map (map_option Key) (stored tr))"
    using inv by (simp add: tree_inv_def)
  then have "Some (Key it) \<notin> set (map (map_option Key) (stored tr'))"
    using distinct_keys_add [OF ms, of "map_option Key"] assms(3) by simp
  moreover have "depth_inv (root tr')" "path_inv (root tr')"
    using inv' by (simp_all add: tree_inv_def)
  ultimately have "get (root tr') it = Inr None"
    unfolding stored_def by (intro absent_key_not_found)
  then have "Get tr' it = Inr (None, tr')" by (simp add: Get_def)
  moreover have "Len tr' = Len tr - 1" by (simp add: Len_def tr'_def)
  moreover have "length (stored tr) = Suc (length (stored tr'))"
    using length_add [OF ms] .
  ultimately show ?thesis using D by blast
qed

theorem delete_present_key_witness:
  "reachable tree_0_9 \<and>
   Some (Uint32 0) \<in> set (stored tree_0_9) \<and>
   (\<exists>tr'. Delete tree_0_9 (Uint32 0) = Inr (Some (Uint32 0), tr') \<and>
      Len tr' = Len tree_0_9 - 1 \<and>
      length (stored tree_0_9) = Suc (length (stored tr')) \<and>
      Get tr' (Uint32 0) = Inr (None, tr'))"
proof -
  have h2: "Some (Uint32 0) \<in> set (stored tree_0_9)" by code_simp
  have h3: "Key (Uint32 0) = Key (Uint32 0)" by simp
  from delete_present_key [OF reachable_tree_0_9 h2 h3] reachable_tree_0_9 h2
  show ?thesis by blast
qed

text \<open>
  C7. When every node along the residue path of the key has an item with another key,
  \<open>Delete\<close> returns nil and the tree, its length included, is as before; this for any
  tree at all. In a tree built from \<open>New\<close> by \<open>Put\<close> and \<open>Delete\<close> this is so whenever
  the key is not stored.
\<close>

theorem delete_absent_key:
  "(residue_path (root tr) (Key it) = Inr p \<longrightarrow> (\<forall>c \<in> set p. no_match (Key it) c) \<longrightarrow>
      (\<exists>tr'. Delete tr it = Inr (None, tr') \<and> Len tr' = Len tr \<and> tr' = tr)) \<and>
   (reachable tr \<longrightarrow> Some (Key it) \<notin> set (map (map_option Key) (stored tr)) \<longrightarrow>
      (\<exists>tr'. Delete tr it = Inr (None, tr') \<and> Len tr' = Len tr \<and> tr' = tr))"
proof (intro conjI impI)
  assume "residue_path (root tr) (Key it) = Inr p" "\<forall>c \<in> set p. no_match (Key it) c"
  then have "get (root tr) it = Inr None"
    by (rule residue_path_get) simp
  from delete_of_get_None [OF this, of "tree_length tr"]
  show "\<exists>tr'. Delete tr it = Inr (None, tr') \<and> Len tr' = Len tr \<and> tr' = tr"
    by (simp add: Delete_def)
next
  assume r: "reachable tr"
    and a: "Some (Key it) \<notin> set (map (map_option Key) (stored tr))"
  from reachable_tree_inv [OF r] have "depth_inv (root tr)" "path_inv (root tr)"
    by (simp_all add: tree_inv_def)
  from absent_key_not_found [OF this a [unfolded stored_def]]
  have "get (root tr) it = Inr None" .
  from delete_of_get_None [OF this, of "tree_length tr"]
  show "\<exists>tr'. Delete tr it = Inr (None, tr') \<and> Len tr' = Len tr \<and> tr' = tr"
    by (simp add: Delete_def)
qed

theorem delete_absent_key_witness:
  "residue_path (root tree_0_9) (Key (Uint32 10)) = Inr [node_0, node_4] \<and>
   no_match (Key (Uint32 10)) node_0 \<and> no_match (Key (Uint32 10)) node_4 \<and>
   reachable tree_0_9 \<and>
   Some (Key (Uint32 10)) \<notin> set (map (map_option Key) (stored tree_0_9)) \<and>
   Delete tree_0_9 (Uint32 10) = Inr (None, tree_0_9)"
proof -
  have h1: "residue_path (root tree_0_9) (Key (Uint32 10)) = Inr [node_0, node_4]"
    by code_simp
  have h2: "no_match (Key (Uint32 10)) node_0" "no_match (Key (Uint32 10)) node_4"
    by code_simp+
  then have h2': "\<forall>c \<in> set [node_0, node_4]. no_match (Key (Uint32 10)) c"
    by simp
  have h3: "Some (Key (Uint32 10)) \<notin> set (map (map_option Key) (stored tree_0_9))"
    by code_simp
  from delete_absent_key [of tree_0_9 "Uint32 10" "[node_0, node_4]"] h1 h2'
  have "Delete tree_0_9 (Uint32 10) = Inr (None, tree_0_9)" by blast
  with h1 h2 h3 reachable_tree_0_9 show ?thesis by blast
qed

text \<open>
  C8. The sibling invariant (\<open>sibling_inv\<close>: in the children of every node the remainders
  are pairwise distinct and sorted ascending) holds in the fresh tree, and \<open>Put\<close> and
  \<open>Delete\<close> take a tree with the invariant to a tree with the invariant. So it holds in
  every tree built from \<open>New\<close> by \<open>Put\<close> and \<open>Delete\<close>, on which \<open>Put\<close> and
  \<open>Delete\<close> do return (they do not panic).
\<close>

theorem sibling_invariant_preserved:
  "sibling_inv (root (New :: 'v htree)) \<and>
   (sibling_inv (root tr) \<longrightarrow> Put tr it1 = Inr (res1, tr1) \<longrightarrow> sibling_inv (root tr1)) \<and>
   (sibling_inv (root tr) \<longrightarrow> Delete tr it2 = Inr (res2, tr2) \<longrightarrow> sibling_inv (root tr2)) \<and>
   (reachable tr \<longrightarrow>
      sibling_inv (root tr) \<and>
      (\<exists>res tr'. Put tr it1 = Inr (res, tr')) \<and>
      (\<exists>res tr'. Delete tr it2 = Inr (res, tr')))"
proof (intro conjI impI)
  show "sibling_inv (root (New :: 'v htree))"
    by (simp add: New_def siblings_sorted_def)
next
  assume "reachable tr"
  then show "\<exists>res tr'. Put tr it1 = Inr (res, tr')"
    by (intro Put_total reachable_tree_inv)
next
  assume "reachable tr"
  then show "\<exists>res tr'. Delete tr it2 = Inr (res, tr')"
    by (intro Delete_total reachable_tree_inv)
next
  assume "sibling_inv (root tr)" "Put tr it1 = Inr (res1, tr1)"
  then show "sibling_inv (root tr1)"
    by (auto simp: Put_def split: sum.splits dest: put_sibling_inv)
next
  assume "sibling_inv (root tr)" "Delete tr it2 = Inr (res2, tr2)"
  then show "sibling_inv (root tr2)"
    by (auto simp: Delete_def split: sum.splits dest: delete_sibling_inv)
next
  assume "reachable tr"
  then show "sibling_inv (root tr)"
    using reachable_tree_inv by (auto simp: tree_inv_def)
qed

theorem sibling_invariant_preserved_witness:
  "sibling_inv (root tree_0_9) \<and>
   Put tree_0_9 (Uint32 10) = Inr (Some (Uint32 10), tree_0_9_put_10) \<and>
   sibling_inv (root tree_0_9_put_10) \<and>
   Delete tree_0_9 (Uint32 0) = Inr (Some (Uint32 0), tree_0_9_del_0) \<and>
   sibling_inv (root tree_0_9_del_0) \<and>
   reachable tree_0_9"
proof -
  have h1: "sibling_inv (root tree_0_9)" by code_simp
  note th = sibling_invariant_preserved [of tree_0_9 "Uint32 10" "Some (Uint32 10)"
      tree_0_9_put_10 "Uint32 0" "Some (Uint32 0)" tree_0_9_del_0]
  from th h1 Put_tree_0_9 Delete_tree_0_9 reachable_tree_0_9
  show ?thesis by blast
qed

lemma Put_all_0_5:
  "Put_all New (map Uint32 [0, 1, 2, 3, 4, 5]) =
     Inr (map (Some \<circ> Uint32) [0, 1, 2, 3, 4, 5], tree_0_5)"
  by code_simp

lemma iterate_tree_0_5:
  "iterate 7 (NewIterator tree_0_5) = Inr (Some (map (Some \<circ> Uint32) [0, 4, 2, 1, 3, 5]))"
  by code_simp

lemma iterate_New: "iterate 1 (NewIterator (New :: 'v htree)) = Inr (Some [])"
  using iterate_NewIterator [of "New :: 'v htree" 1]
  by (simp add: stored_def below_def New_def)

text \<open>
  C9. The loop \<^verbatim>\<open>for iter.Next() { ... }\<close> on a fresh iterator ends, and the items it
  sees are \<open>stored tr\<close>, the items under the root in pre-order, each node once, the
  children in the order of the children slice: any fuel above the number of stored items
  is enough. In a tree built from \<open>New\<close> by \<open>Put\<close> and \<open>Delete\<close> that number is
  \<^verbatim>\<open>Len()\<close>, no item comes twice and none is nil. The fresh tree yields nothing. The
  keys 0, 1, 2, 3, 4, 5 put in this order yield 0, 4, 2, 1, 3, 5.
\<close>

theorem iterator_preorder:
  "(length (stored tr) < fuel \<longrightarrow> iterate fuel (NewIterator tr) = Inr (Some (stored tr))) \<and>
   (reachable tr \<longrightarrow>
      unat (Len tr) = length (stored tr) \<and> distinct (stored tr) \<and> None \<notin> set (stored tr)) \<and>
   iterate 1 (NewIterator (New :: 'v htree)) = Inr (Some []) \<and>
   Put_all New (map Uint32 [0, 1, 2, 3, 4, 5]) =
     Inr (map (Some \<circ> Uint32) [0, 1, 2, 3, 4, 5], tree_0_5) \<and>
   iterate 7 (NewIterator tree_0_5) = Inr (Some (map (Some \<circ> Uint32) [0, 4, 2, 1, 3, 5]))"
proof (intro conjI impI)
  assume "length (stored tr) < fuel"
  then show "iterate fuel (NewIterator tr) = Inr (Some (stored tr))"
    by (rule iterate_NewIterator)
next
  assume r: "reachable tr"
  show "unat (Len tr) = length (stored tr)"
    using reachable_tree_inv [OF r] by (rule stored_count)
  show "distinct (stored tr)" "None \<notin> set (stored tr)"
    using stored_items [OF reachable_tree_inv [OF r]] by simp_all
qed (rule iterate_New Put_all_0_5 iterate_tree_0_5)+

theorem iterator_preorder_witness:
  "length (stored tree_0_9) < 11 \<and>
   iterate 11 (NewIterator tree_0_9) = Inr (Some (stored tree_0_9)) \<and>
   stored tree_0_9 = map (Some \<circ> Uint32) [0, 6, 4, 2, 8, 1, 3, 9, 7, 5] \<and>
   reachable tree_0_9 \<and>
   unat (Len tree_0_9) = length (stored tree_0_9) \<and>
   distinct (stored tree_0_9) \<and> None \<notin> set (stored tree_0_9)"
proof -
  have h1: "length (stored tree_0_9) < 11" by code_simp
  have h2: "stored tree_0_9 = map (Some \<circ> Uint32) [0, 6, 4, 2, 8, 1, 3, 9, 7, 5]"
    by code_simp
  from iterator_preorder [of tree_0_9 11] h1 h2 reachable_tree_0_9
  show ?thesis by blast
qed

text \<open>
  C10. \<^verbatim>\<open>get\<close> and \<^verbatim>\<open>search\<close> on the memory, where every node is a cell and the
  length and the conflicts are fields: whatever the memory, the item and the fuel, when
  \<open>search_m\<close> or \<open>Get_m\<close> returns, the memory it returns is the memory it was given,
  so no cell (item, depth, remainder, children of a node), nor the root pointer, the
  length or the conflicts has changed. On a memory that holds a tree built from \<open>New\<close>
  by \<open>Put\<close> and \<open>Delete\<close>, \<open>Get_m\<close> does return with fuel 10, with the result of
  \<open>Get\<close> on that tree; and every tree is held by some memory, \<open>memory_of\<close> of it.
  (\<^verbatim>\<open>modulo\<close> receives a key and a depth by value and no pointer.)
\<close>

theorem get_leaves_memory_unchanged:
  "(search_m m p r = Inr (y, m1) \<longrightarrow> m1 = m) \<and>
   (Get_m fuel m it = Inr (Some (res, m')) \<longrightarrow>
      m' = m \<and> cells m' = cells m \<and> mem_root m' = mem_root m \<and>
      mem_length m' = mem_length m \<and> mem_conflicts m' = mem_conflicts m) \<and>
   (repr_tree m tr \<longrightarrow> reachable tr \<longrightarrow> 10 \<le> fuel \<longrightarrow>
      (\<exists>x. Get tr it = Inr (x, tr) \<and> Get_m fuel m it = Inr (Some (x, m)))) \<and>
   repr_tree (memory_of tr) tr"
proof (intro conjI impI)
  show "repr_tree (memory_of tr) tr"
    by (rule repr_tree_memory_of)
next
  assume "search_m m p r = Inr (y, m1)"
  then show "m1 = m" by (rule search_m_frame)
next
  assume "Get_m fuel m it = Inr (Some (res, m'))"
  then have "m' = m" unfolding Get_m_def by (rule get_m_frame)
  then show "m' = m" "cells m' = cells m" "mem_root m' = mem_root m"
    "mem_length m' = mem_length m" "mem_conflicts m' = mem_conflicts m"
    by simp_all
next
  assume rp: "repr_tree m tr" and r: "reachable tr" and f: "10 \<le> fuel"
  from Get_total [OF reachable_tree_inv [OF r], of it] obtain x where
    x: "Get tr it = Inr (x, tr)" by blast
  then have g: "get (root tr) it = Inr x"
    by (auto simp: Get_def split: sum.splits)
  have "height (root tr) \<le> fuel"
    using reachable_height [OF r] f by simp
  with rp g have "get_m fuel m (mem_root m) it = Inr (Some (x, m))"
    unfolding repr_tree_def by (intro get_m_repr) auto
  with x show "\<exists>x. Get tr it = Inr (x, tr) \<and> Get_m fuel m it = Inr (Some (x, m))"
    by (auto simp: Get_m_def)
qed

theorem get_leaves_memory_unchanged_witness:
  "repr_tree mem_0_5 tree_0_5 \<and> reachable tree_0_5 \<and>
   search_m mem_0_5 1 1 = Inr ((True, 1, 1), mem_0_5) \<and>
   Get tree_0_5 (Uint32 3) = Inr (Some (Uint32 3), tree_0_5) \<and>
   Get_m 10 mem_0_5 (Uint32 3) = Inr (Some (Some (Uint32 3), mem_0_5)) \<and>
   Get_m 10 mem_0_5 (Uint32 7) = Inr (Some (None, mem_0_5)) \<and>
   mem_length mem_0_5 = 6 \<and> mem_conflicts mem_0_5 = 0"
proof -
  have h1: "repr_tree mem_0_5 tree_0_5" by code_simp
  have h2: "reachable tree_0_5"
    using reachable_Put_all [OF reachable_New Put_all_0_5] .
  have h3: "Get tree_0_5 (Uint32 3) = Inr (Some (Uint32 3), tree_0_5)" by code_simp
  have h4: "Get tree_0_5 (Uint32 7) = Inr (None, tree_0_5)" by code_simp
  have h5: "search (children (root tree_0_5)) 1 = Inr (True, 1, 1)" by code_simp
  have h6: "mem_root mem_0_5 = 1" "mem_length mem_0_5 = 6" "mem_conflicts mem_0_5 = 0"
    by (simp_all add: mem_0_5_def)
  have s: "search_m mem_0_5 1 1 = Inr ((True, 1, 1), mem_0_5)"
    using search_m_repr [of mem_0_5 1 "root tree_0_5" 1 "(True, 1, 1)"] h1 h5 h6
    by (simp add: repr_tree_def)
  from get_leaves_memory_unchanged [of mem_0_5 1 1 "(True, 1, 1)" mem_0_5 10 "Uint32 3"
      "Some (Uint32 3)" mem_0_5 tree_0_5] h1 h2 h3
  have a: "Get_m 10 mem_0_5 (Uint32 3) = Inr (Some (Some (Uint32 3), mem_0_5))" by auto
  from get_leaves_memory_unchanged [of mem_0_5 1 1 "(True, 1, 1)" mem_0_5 10 "Uint32 7"
      None mem_0_5 tree_0_5] h1 h2 h4
  have b: "Get_m 10 mem_0_5 (Uint32 7) = Inr (Some (None, mem_0_5))" by auto
  from h1 h2 s h3 a b h6 show ?thesis by blast
qed

end
